theory Spec2Isabelle
  imports Complex_Main
begin

section \<open>Characters and strings\<close>

text \<open>
  The program works on Python \<open>str\<close> values. A text is modelled as a \<open>string\<close>, each
  \<open>char\<close> being one code point in the range 0..255. The character classes below are
  the ones Python's \<open>re\<close> module and \<open>str\<close> methods use on that range:
  \<open>\w\<close> (alphanumeric or underscore), \<open>\s\<close> and \<open>str.strip\<close> (white space),
  \<open>[A-Za-z]\<close>, \<open>[.!?]\<close> and \<open>str.lower\<close>.
\<close>

definition code :: "char \<Rightarrow> nat" where
  "code c = of_char c"

definition is_word_char :: "char \<Rightarrow> bool" where
  "is_word_char c =
     (let n = code c in
        (48 \<le> n \<and> n \<le> 57) \<or> (65 \<le> n \<and> n \<le> 90) \<or> n = 95 \<or> (97 \<le> n \<and> n \<le> 122) \<or>
        n = 170 \<or> (178 \<le> n \<and> n \<le> 179) \<or> n = 181 \<or> (185 \<le> n \<and> n \<le> 186) \<or>
        (188 \<le> n \<and> n \<le> 190) \<or> (192 \<le> n \<and> n \<le> 214) \<or> (216 \<le> n \<and> n \<le> 246) \<or>
        248 \<le> n)"

definition is_space :: "char \<Rightarrow> bool" where
  "is_space c =
     (let n = code c in (9 \<le> n \<and> n \<le> 13) \<or> (28 \<le> n \<and> n \<le> 32) \<or> n = 133 \<or> n = 160)"

definition is_ascii_letter :: "char \<Rightarrow> bool" where
  "is_ascii_letter c = (let n = code c in (65 \<le> n \<and> n \<le> 90) \<or> (97 \<le> n \<and> n \<le> 122))"

definition is_mark :: "char \<Rightarrow> bool" where
  "is_mark c = (c = CHR ''.'' \<or> c = CHR ''!'' \<or> c = CHR ''?'')"

definition lower_char :: "char \<Rightarrow> char" where
  "lower_char c =
     (let n = code c in
        if (65 \<le> n \<and> n \<le> 90) \<or> (192 \<le> n \<and> n \<le> 214) \<or> (216 \<le> n \<and> n \<le> 222)
        then char_of (n + 32) else c)"

definition lower :: "string \<Rightarrow> string" where
  "lower s = map lower_char s"

definition strip :: "string \<Rightarrow> string" where
  "strip s = rev (dropWhile is_space (rev (dropWhile is_space s)))"

fun join :: "string \<Rightarrow> string list \<Rightarrow> string" where
  "join sep [] = []"
| "join sep [x] = x"
| "join sep (x # y # ys) = x @ sep @ join sep (y # ys)"

section \<open>Sentence segmenter\<close>

text \<open>\<open>re.sub(r"([.!?])([A-Za-z])", r"\1 \2", text)\<close>: a space is put between a terminal
  mark and a letter that follows it at once; the scan goes on after the letter.\<close>

fun sub_mark_letter :: "string \<Rightarrow> string" where
  "sub_mark_letter (c # d # cs) =
     (if is_mark c \<and> is_ascii_letter d then c # CHR '' '' # d # sub_mark_letter cs
      else c # sub_mark_letter (d # cs))"
| "sub_mark_letter [c] = [c]"
| "sub_mark_letter [] = []"

text \<open>\<open>re.split(r"([.!?])", text)\<close>: the text before the next mark, the mark itself (the
  pattern's group), then the split of what follows; without a mark, the text alone.\<close>

function re_split_marks :: "string \<Rightarrow> string list" where
  "re_split_marks s =
     (case dropWhile (\<lambda>c. \<not> is_mark c) s of
        [] \<Rightarrow> [s]
      | m # rest \<Rightarrow> takeWhile (\<lambda>c. \<not> is_mark c) s # [m] # re_split_marks rest)"
  by pat_completeness auto
termination
proof (relation "measure length")
  show "wf (measure length)" by simp
next
  fix s :: string and m rest
  assume "dropWhile (\<lambda>c. \<not> is_mark c) s = m # rest"
  then have "length (m # rest) \<le> length s"
    by (metis length_dropWhile_le)
  then show "(rest, s) \<in> measure length" by simp
qed

declare re_split_marks.simps [simp del]

text \<open>The loop \<open>for i in range(0, len(parts) - 1, 2)\<close> over the parts, two at a time.\<close>

fun pair_loop :: "string list \<Rightarrow> string list" where
  "pair_loop (a # b # ps) =
     (let s = strip (a @ b) in if s \<noteq> [] then s # pair_loop ps else pair_loop ps)"
| "pair_loop ps = []"

definition split_sentences :: "string \<Rightarrow> string list" where
  "split_sentences text =
     (let text' = sub_mark_letter text;
          parts = re_split_marks text';
          sentences = pair_loop parts
      in if length parts mod 2 \<noteq> 0 \<and> strip (last parts) \<noteq> []
         then sentences @ [strip (last parts)] else sentences)"

section \<open>Term tables\<close>

text \<open>A Python \<open>dict\<close> literal is modelled by the list of its entries as written. A key
  written twice keeps its first position and its last value.\<close>

definition dict_keys :: "('k \<times> 'v) list \<Rightarrow> 'k list" where
  "dict_keys d = rev (remdups (rev (map fst d)))"

definition dict_get :: "('k \<times> 'v) list \<Rightarrow> 'k \<Rightarrow> 'v option" where
  "dict_get d k = map_of (rev d) k"

definition CONTRACTION_MAP :: "(string \<times> string) list" where
  "CONTRACTION_MAP =
    [(''don't'', ''do not''),
     (''doesn't'', ''does not''),
     (''didn't'', ''did not''),
     (''can't'', ''cannot''),
     (''cannot'', ''cannot''),
     (''won't'', ''will not''),
     (''isn't'', ''is not''),
     (''aren't'', ''are not''),
     (''wasn't'', ''was not''),
     (''weren't'', ''were not''),
     (''hasn't'', ''has not''),
     (''haven't'', ''have not''),
     (''hadn't'', ''had not''),
     (''wouldn't'', ''would not''),
     (''shouldn't'', ''should not''),
     (''couldn't'', ''could not''),
     (''I'm'', ''I am''),
     (''I'm'', ''I am''),
     (''you're'', ''you are''),
     (''we're'', ''we are''),
     (''they're'', ''they are''),
     (''it's'', ''it is''),
     (''that's'', ''that is''),
     (''there's'', ''there is''),
     (''I've'', ''I have''),
     (''you've'', ''you have''),
     (''we've'', ''we have''),
     (''they've'', ''they have''),
     (''I'll'', ''I will''),
     (''you'll'', ''you will''),
     (''we'll'', ''we will''),
     (''they'll'', ''they will'')]"

definition INFORMAL_MAP :: "(string \<times> string) list" where
  "INFORMAL_MAP =
    [(''really'', ''highly / very (consider more precise wording)''),
     (''very'', ''intensely / extremely (or remove if unnecessary)''),
     (''a lot'', ''a substantial amount''),
     (''lots of'', ''many / numerous''),
     (''stuff'', ''material / content / items (be specific)''),
     (''things'', ''aspects / factors / elements (be specific)''),
     (''kids'', ''children''),
     (''big'', ''significant / substantial''),
     (''huge'', ''major / considerable''),
     (''basically'', ''fundamentally / essentially (or remove)''),
     (''pretty'', ''fairly / relatively (or remove)''),
     (''kind of'', ''somewhat / to some extent''),
     (''sort of'', ''somewhat / to some extent''),
     (''gonna'', ''going to''),
     (''wanna'', ''want to'')]"

section \<open>Pattern matcher\<close>

text \<open>
  The three compiled patterns have the shape \<open>\b(k1|k2|...)\b\<close> over literal keys.
  A match at a position needs a word boundary before it, the first key in the
  alternation that is found there and is followed by a word boundary. \<open>prev\<close> is the
  character before the position (\<open>None\<close> at the start of the text). With
  \<open>re.IGNORECASE\<close> a character matches a key's character when their lower-case forms
  agree. Every key of the tables is non-empty, so a match is never empty.
\<close>

fun first_char :: "string \<Rightarrow> char option" where
  "first_char [] = None"
| "first_char (c # cs) = Some c"

definition word_opt :: "char option \<Rightarrow> bool" where
  "word_opt x = (case x of None \<Rightarrow> False | Some c \<Rightarrow> is_word_char c)"

definition word_boundary :: "char option \<Rightarrow> char option \<Rightarrow> bool" where
  "word_boundary a b = (word_opt a \<noteq> word_opt b)"

fun literal_at :: "bool \<Rightarrow> string \<Rightarrow> string \<Rightarrow> bool" where
  "literal_at ic [] s = True"
| "literal_at ic (k # ks) [] = False"
| "literal_at ic (k # ks) (c # cs) =
     ((if ic then lower_char c = lower_char k else c = k) \<and> literal_at ic ks cs)"

definition key_at :: "bool \<Rightarrow> char option \<Rightarrow> string \<Rightarrow> string \<Rightarrow> bool" where
  "key_at ic prev s k =
     (literal_at ic k s \<and>
      word_boundary (if k = [] then prev else Some (last (take (length k) s)))
                    (first_char (drop (length k) s)))"

definition alt_match :: "bool \<Rightarrow> string list \<Rightarrow> char option \<Rightarrow> string \<Rightarrow> string option" where
  "alt_match ic keys prev s =
     (if word_boundary prev (first_char s)
      then map_option (\<lambda>k. take (length k) s) (find (key_at ic prev s) keys)
      else None)"

text \<open>\<open>pattern.finditer(s)\<close>: the matched texts, left to right, not overlapping.\<close>

fun re_finditer :: "bool \<Rightarrow> string list \<Rightarrow> char option \<Rightarrow> string \<Rightarrow> string list" where
  "re_finditer ic keys prev [] = []"
| "re_finditer ic keys prev (c # cs) =
     (case alt_match ic keys prev (c # cs) of
        None \<Rightarrow> re_finditer ic keys (Some c) cs
      | Some m \<Rightarrow> m # re_finditer ic keys (Some (last m)) (drop (length m - 1) cs))"

text \<open>\<open>pattern.sub(repl, s)\<close>: every match is replaced by \<open>repl\<close> of the matched text.\<close>

fun re_sub :: "bool \<Rightarrow> string list \<Rightarrow> (string \<Rightarrow> string) \<Rightarrow> char option \<Rightarrow> string \<Rightarrow> string" where
  "re_sub ic keys repl prev [] = []"
| "re_sub ic keys repl prev (c # cs) =
     (case alt_match ic keys prev (c # cs) of
        None \<Rightarrow> c # re_sub ic keys repl (Some c) cs
      | Some m \<Rightarrow> repl m @ re_sub ic keys repl (Some (last m)) (drop (length m - 1) cs))"

definition CONTRACTION_PATTERN :: "string list" where
  "CONTRACTION_PATTERN = dict_keys CONTRACTION_MAP"

definition INFORMAL_PATTERN :: "string list" where
  "INFORMAL_PATTERN = dict_keys INFORMAL_MAP"

definition FIRST_PERSON_PATTERN :: "string list" where
  "FIRST_PERSON_PATTERN = [''I'', ''we'', ''We'', ''our'', ''Our'', ''us'']"

definition contraction_finditer :: "string \<Rightarrow> string list" where
  "contraction_finditer s = re_finditer False CONTRACTION_PATTERN None s"

definition informal_finditer :: "string \<Rightarrow> string list" where
  "informal_finditer s = re_finditer True INFORMAL_PATTERN None s"

definition first_person_finditer :: "string \<Rightarrow> string list" where
  "first_person_finditer s = re_finditer False FIRST_PERSON_PATTERN None s"

text \<open>\<open>re.findall(r"\w+('\w+)?", s)\<close>. The pattern has one group, so \<open>findall\<close> returns
  for each match the text of that group: the apostrophe part, or the empty string when
  the word has none.\<close>

definition apostrophe_group :: "string \<Rightarrow> string" where
  "apostrophe_group rest =
     (case rest of
        [] \<Rightarrow> []
      | q # r \<Rightarrow> if q = CHR 0x27 \<and> takeWhile is_word_char r \<noteq> []
                 then q # takeWhile is_word_char r else [])"

function findall_words :: "string \<Rightarrow> string list" where
  "findall_words [] = []"
| "findall_words (c # cs) =
     (if is_word_char c
      then (let rest = dropWhile is_word_char cs; g = apostrophe_group rest
            in g # findall_words (drop (length g) rest))
      else findall_words cs)"
  by pat_completeness auto
termination
proof (relation "measure length")
  show "wf (measure length)" by simp
next
  fix c :: char and cs rest g
  assume "rest = dropWhile is_word_char cs"
  then have "length (drop (length g) rest) \<le> length cs"
    by (simp add: length_dropWhile_le le_diff_conv trans_le_add1)
  then show "(drop (length g) rest, c # cs) \<in> measure length" by simp
next
  fix c :: char and cs
  show "(cs, c # cs) \<in> measure length" by simp
qed

section \<open>Issue aggregator\<close>

record issue =
  type :: string
  sentence_index :: nat
  message :: string
  "extract" :: string

text \<open>The decimal text of a number, as an f-string prints it.\<close>

definition digit_char :: "nat \<Rightarrow> char" where
  "digit_char d = char_of (48 + d)"

function str_nat :: "nat \<Rightarrow> string" where
  "str_nat n = (if n < 10 then [digit_char n] else str_nat (n div 10) @ [digit_char (n mod 10)])"
  by pat_completeness auto
termination
  by (relation "measure id") auto

declare str_nat.simps [simp del]

definition quote :: string where
  "quote = [CHR 0x27]"

definition long_sentence_issue :: "nat \<Rightarrow> nat \<Rightarrow> string \<Rightarrow> issue" where
  "long_sentence_issue idx word_count s =
     \<lparr>type = ''long_sentence'', sentence_index = idx,
      message = ''Sentence '' @ str_nat idx @ '' is quite long ('' @ str_nat word_count @
                '' words). Consider splitting it for clarity.'',
      extract = s\<rparr>"

definition short_sentence_issue :: "nat \<Rightarrow> nat \<Rightarrow> string \<Rightarrow> issue" where
  "short_sentence_issue idx word_count s =
     \<lparr>type = ''short_sentence'', sentence_index = idx,
      message = ''Sentence '' @ str_nat idx @ '' is very short ('' @ str_nat word_count @
                '' words). In academic writing, you may wish to combine it with a neighbouring sentence.'',
      extract = s\<rparr>"

definition contraction_issue :: "nat \<Rightarrow> string \<Rightarrow> string \<Rightarrow> issue" where
  "contraction_issue idx s m =
     \<lparr>type = ''contraction'', sentence_index = idx,
      message = ''Contraction '' @ quote @ m @ quote @ '' found in sentence '' @ str_nat idx @
                ''. Consider using the full form in academic writing.'',
      extract = s\<rparr>"

definition informal_issue :: "nat \<Rightarrow> string \<Rightarrow> string \<Rightarrow> issue" where
  "informal_issue idx s w =
     (let suggestion = (case dict_get INFORMAL_MAP (lower w) of
                          Some v \<Rightarrow> v
                        | None \<Rightarrow> ''Consider a more precise alternative.'')
      in \<lparr>type = ''informal'', sentence_index = idx,
          message = ''Informal or vague word '' @ quote @ w @ quote @ '' in sentence '' @
                    str_nat idx @ ''. '' @ suggestion,
          extract = s\<rparr>)"

definition first_person_issue :: "nat \<Rightarrow> string \<Rightarrow> string \<Rightarrow> issue" where
  "first_person_issue idx s m =
     \<lparr>type = ''first_person'', sentence_index = idx,
      message = ''First-person pronoun '' @ quote @ m @ quote @ '' in sentence '' @ str_nat idx @
                ''. Check if this is appropriate for your assignment guidelines.'',
      extract = s\<rparr>"

definition repeated_start_issue :: "nat \<Rightarrow> string \<Rightarrow> string \<Rightarrow> issue" where
  "repeated_start_issue idx start s =
     \<lparr>type = ''repeated_start'', sentence_index = idx,
      message = ''Several sentences start with '' @ quote @ start @ quote @
                ''. Varying openings can improve academic style and flow.'',
      extract = s\<rparr>"

definition length_issues :: "nat \<Rightarrow> string \<Rightarrow> nat \<Rightarrow> issue list" where
  "length_issues idx s word_count =
     (if word_count > 35 then [long_sentence_issue idx word_count s]
      else if word_count < 7 then [short_sentence_issue idx word_count s]
      else [])"

text \<open>The sentence start collected at the end of the loop body, from \<open>words\<close>.\<close>

definition sentence_start :: "string list \<Rightarrow> string" where
  "sentence_start words =
     (if length words \<ge> 2 then lower (join '' '' (take 2 words))
      else if words \<noteq> [] then lower (words ! 0)
      else [])"

text \<open>The issues one pass of the loop body appends for sentence \<open>s\<close> with index \<open>idx\<close>.\<close>

definition sentence_issues :: "nat \<Rightarrow> string \<Rightarrow> issue list" where
  "sentence_issues idx s =
     (let words = findall_words s; word_count = length words
      in length_issues idx s word_count
         @ map (contraction_issue idx s) (contraction_finditer s)
         @ map (informal_issue idx s) (informal_finditer s)
         @ map (first_person_issue idx s) (first_person_finditer s))"

definition loop_body :: "nat \<times> string \<Rightarrow> issue list \<times> string list \<Rightarrow> issue list \<times> string list" where
  "loop_body = (\<lambda>(idx, s) (issues, starts).
     (issues @ sentence_issues idx s, starts @ [sentence_start (findall_words s)]))"

definition repeated_starts :: "string list \<Rightarrow> string list \<Rightarrow> issue list" where
  "repeated_starts sentences starts =
     concat (map (\<lambda>(idx, start).
                    if start \<noteq> [] \<and> count_list starts start > 2
                    then [repeated_start_issue idx start (sentences ! (idx - 1))] else [])
                 (enumerate 1 starts))"

definition analyse_text :: "string \<Rightarrow> string list \<times> issue list" where
  "analyse_text text =
     (let sentences = split_sentences text;
          (issues, starts) = fold loop_body (enumerate 1 sentences) ([], [])
      in (sentences, issues @ repeated_starts sentences starts))"

section \<open>Clean rewriter\<close>

definition repl_contraction :: "string \<Rightarrow> string" where
  "repl_contraction word =
     (case dict_get CONTRACTION_MAP word of
        Some v \<Rightarrow> v
      | None \<Rightarrow> (case dict_get CONTRACTION_MAP (lower word) of Some v \<Rightarrow> v | None \<Rightarrow> word))"

definition expand_contractions :: "string \<Rightarrow> string" where
  "expand_contractions text = re_sub False CONTRACTION_PATTERN repl_contraction None text"

definition repl_informal :: "string \<Rightarrow> string" where
  "repl_informal word =
     (case dict_get INFORMAL_MAP (lower word) of
        Some suggestion \<Rightarrow> if suggestion \<noteq> [] then word @ '' ('' @ suggestion @ '')'' else word
      | None \<Rightarrow> word)"

text \<open>\<open>re.sub(r"\s+", " ", text)\<close>: every run of white space becomes one space.\<close>

function sub_spaces :: "string \<Rightarrow> string" where
  "sub_spaces [] = []"
| "sub_spaces (c # cs) =
     (if is_space c then CHR '' '' # sub_spaces (dropWhile is_space cs) else c # sub_spaces cs)"
  by pat_completeness auto
termination
proof (relation "measure length")
  show "wf (measure length)" by simp
next
  fix c :: char and cs
  have "length (dropWhile is_space cs) \<le> length cs" by (rule length_dropWhile_le)
  then show "(dropWhile is_space cs, c # cs) \<in> measure length" by simp
next
  fix c :: char and cs
  show "(cs, c # cs) \<in> measure length" by simp
qed

text \<open>\<open>textwrap.fill\<close> belongs to the standard library; it is the parameter \<open>fill\<close>.\<close>

definition clean_text :: "(string \<Rightarrow> nat \<Rightarrow> string) \<Rightarrow> string \<Rightarrow> nat \<Rightarrow> string" where
  "clean_text fill text wrap =
     (let cleaned = expand_contractions text;
          cleaned = re_sub True INFORMAL_PATTERN repl_informal None cleaned;
          cleaned = strip (sub_spaces cleaned)
      in fill cleaned wrap)"

section \<open>Humaniser\<close>

text \<open>
  The humaniser has its own copy of \<open>split_sentences\<close>, the same text as the style
  assistant's. The random source is explicit: \<open>random\<close> stands for \<open>random.random\<close>
  and \<open>choice\<close> for \<open>random.choice\<close>, both taking the generator state and returning the
  new one. A draw is the exact value of the float, and the literal \<open>0.35\<close> is the exact
  value of the float it denotes.
\<close>

datatype error = IndexError

definition ACADEMIC_CONNECTORS :: "string list" where
  "ACADEMIC_CONNECTORS =
    [''Moreover, '', ''Furthermore, '', ''In addition, '',
     ''It is also important to note that '', ''However, '', ''Consequently, '',
     ''Therefore, '']"

definition LIGHT_REPHRASINGS :: "(string \<times> string) list" where
  "LIGHT_REPHRASINGS =
    [(''in conclusion'', ''overall''),
     (''therefore'', ''therefore''),
     (''moreover'', ''moreover''),
     (''furthermore'', ''furthermore''),
     (''in addition'', ''in addition''),
     (''to summarise'', ''to summarise'')]"

definition apply_light_rephrasings :: "string \<Rightarrow> string" where
  "apply_light_rephrasings text =
     fold (\<lambda>(pattern, replacement) text. re_sub True [pattern] (\<lambda>m. replacement) None text)
          LIGHT_REPHRASINGS text"

definition threshold :: rat where
  "threshold = 3152519739159347 / 9007199254740992"

definition or_else :: "string \<Rightarrow> string \<Rightarrow> string" where
  "or_else s original = (if s \<noteq> [] then s else original)"

definition academic_tone ::
  "('g \<Rightarrow> rat \<times> 'g) \<Rightarrow> (string list \<Rightarrow> 'g \<Rightarrow> string \<times> 'g) \<Rightarrow>
   string \<Rightarrow> nat \<Rightarrow> nat \<Rightarrow> 'g \<Rightarrow> (error + string) \<times> 'g" where
  "academic_tone random choice sentence idx total_n g =
     (let original = sentence;
          s = apply_light_rephrasings sentence
      in if 0 < idx \<and> idx < total_n
         then (case random g of
                 (r, g1) \<Rightarrow>
                   if r < threshold
                   then (case choice ACADEMIC_CONNECTORS g1 of
                           (connector, g2) \<Rightarrow>
                             (case s of
                                [] \<Rightarrow> (Inl IndexError, g2)
                              | c # cs \<Rightarrow> (Inr (or_else (connector @ lower [c] @ cs) original), g2)))
                   else (Inr (or_else s original), g1))
         else (Inr (or_else s original), g))"

fun tone_loop ::
  "('g \<Rightarrow> rat \<times> 'g) \<Rightarrow> (string list \<Rightarrow> 'g \<Rightarrow> string \<times> 'g) \<Rightarrow>
   nat \<Rightarrow> nat \<Rightarrow> 'g \<Rightarrow> string list \<Rightarrow> error + string list" where
  "tone_loop random choice total_n idx g [] = Inr []"
| "tone_loop random choice total_n idx g (s # ss) =
     (case academic_tone random choice s idx total_n g of
        (Inl e, g') \<Rightarrow> Inl e
      | (Inr s', g') \<Rightarrow>
          (case tone_loop random choice total_n (Suc idx) g' ss of
             Inl e \<Rightarrow> Inl e
           | Inr new \<Rightarrow> Inr (s' # new)))"

definition humanise_uk_academic ::
  "('g \<Rightarrow> rat \<times> 'g) \<Rightarrow> (string list \<Rightarrow> 'g \<Rightarrow> string \<times> 'g) \<Rightarrow>
   (string \<Rightarrow> nat \<Rightarrow> string) \<Rightarrow> 'g \<Rightarrow> string \<Rightarrow> nat \<Rightarrow> error + string" where
  "humanise_uk_academic random choice fill g text wrap =
     (let text = strip (sub_spaces text)
      in if text = [] then Inr []
         else (let sentences = split_sentences text
               in case tone_loop random choice (length sentences) 0 g sentences of
                    Inl e \<Rightarrow> Inl e
                  | Inr new \<Rightarrow> Inr (fill (join '' '' new) wrap)))"

section \<open>Notions used in the statements and proofs\<close>

text \<open>The sentences of a text in which the space after a mark is already inserted: the
  second half of \<open>split_sentences\<close>.\<close>

definition sents :: "string \<Rightarrow> string list" where
  "sents u =
     (let parts = re_split_marks u; sentences = pair_loop parts
      in if length parts mod 2 \<noteq> 0 \<and> strip (last parts) \<noteq> []
         then sentences @ [strip (last parts)] else sentences)"

text \<open>The number of sentences of a text, counted in one pass from the left: each mark
  closes a sentence, and what follows the last mark is one more sentence when it has a
  character that is not white space (\<open>st\<close> records that one was seen).\<close>

fun count_sents :: "bool \<Rightarrow> string \<Rightarrow> nat" where
  "count_sents st [] = (if st then 1 else 0)"
| "count_sents st (c # cs) =
     (if is_mark c then Suc (count_sents False cs) else count_sents (st \<or> \<not> is_space c) cs)"

text \<open>The shape of a sentence list: every sentence but the last ends with its only
  mark; the last one may also be a text without marks that is not blank.\<close>

definition ends_mark :: "string \<Rightarrow> bool" where
  "ends_mark x = (x \<noteq> [] \<and> is_mark (last x) \<and> list_all (\<lambda>c. \<not> is_mark c) (butlast x))"

definition tail_ok :: "string \<Rightarrow> bool" where
  "tail_ok x = (list_all (\<lambda>c. \<not> is_mark c) x \<and> list_ex (\<lambda>c. \<not> is_space c) x)"

fun sents_shape :: "string list \<Rightarrow> bool" where
  "sents_shape [] = True"
| "sents_shape [x] = (ends_mark x \<or> tail_ok x)"
| "sents_shape (x # y # ys) = (ends_mark x \<and> sents_shape (y # ys))"

text \<open>The whole words of a text, in the sense of the patterns' \<open>\b\<close>: the maximal runs of
  word characters, left to right.\<close>

function whole_words :: "string \<Rightarrow> string list" where
  "whole_words [] = []"
| "whole_words (c # cs) =
     (if is_word_char c
      then (c # takeWhile is_word_char cs) # whole_words (dropWhile is_word_char cs)
      else whole_words cs)"
  by pat_completeness auto
termination
proof (relation "measure length")
  show "wf (measure length)" by simp
next
  fix c :: char and cs
  have "length (dropWhile is_word_char cs) \<le> length cs" by (rule length_dropWhile_le)
  then show "(dropWhile is_word_char cs, c # cs) \<in> measure length" by simp
next
  fix c :: char and cs
  show "(cs, c # cs) \<in> measure length" by simp
qed

text \<open>A key made of word characters only.\<close>

definition word_key :: "string \<Rightarrow> bool" where
  "word_key k = (k \<noteq> [] \<and> list_all is_word_char k)"

text \<open>A key of the form \<open>A'B\<close>, two words joined by an apostrophe; and the text of that
  form at the start of \<open>s\<close>, if there is one.\<close>

definition apos_key :: "string \<Rightarrow> bool" where
  "apos_key k =
     (takeWhile is_word_char k \<noteq> [] \<and>
      (case dropWhile is_word_char k of [] \<Rightarrow> False | q # b \<Rightarrow> q = CHR 0x27 \<and> word_key b))"

definition key_shape :: "string \<Rightarrow> bool" where
  "key_shape k = (word_key k \<or> apos_key k)"

definition apos_at :: "string \<Rightarrow> string" where
  "apos_at s =
     (case dropWhile is_word_char s of
        [] \<Rightarrow> []
      | q # r \<Rightarrow> if q = CHR 0x27 \<and> takeWhile is_word_char r \<noteq> []
                 then takeWhile is_word_char s @ q # takeWhile is_word_char r else [])"

definition candidate :: "string \<Rightarrow> string \<Rightarrow> bool" where
  "candidate s k = (k = takeWhile is_word_char s \<or> k = apos_at s)"

text \<open>The contraction substitution from a position inside the text, and what the proof
  of its idempotence checks on each expansion of the table: the expansion is itself a
  key that expands to itself, or it is two words of which neither can start a match.\<close>

abbreviation contraction_sub :: "char option \<Rightarrow> string \<Rightarrow> string" where
  "contraction_sub \<equiv> re_sub False CONTRACTION_PATTERN repl_contraction"

definition inert_value :: "string \<Rightarrow> bool" where
  "inert_value v =
     ((word_key v \<and> v \<in> set CONTRACTION_PATTERN \<and> repl_contraction v = v \<and>
       list_all (\<lambda>k. takeWhile is_word_char k \<noteq> v \<or> k = v) CONTRACTION_PATTERN) \<or>
      (word_key (takeWhile is_word_char v) \<and>
       takeWhile is_word_char v \<notin> set CONTRACTION_PATTERN \<and>
       (case dropWhile is_word_char v of
          [] \<Rightarrow> False
        | q # w2 \<Rightarrow> q = CHR '' '' \<and> word_key w2 \<and>
                    list_all (\<lambda>k. takeWhile is_word_char k \<noteq> w2) CONTRACTION_PATTERN)))"

text \<open>The same check on a value \<open>v\<close> given with its first word and the rest, against the
  keys and the first words of the keys.\<close>

definition inert_check :: "string list \<Rightarrow> string list \<Rightarrow> string \<times> string \<times> string \<Rightarrow> bool" where
  "inert_check keys heads = (\<lambda>(v, w1, r).
     w1 \<noteq> [] \<and>
     (case r of
        [] \<Rightarrow> List.member keys v \<and> repl_contraction v = v \<and>
              list_all (\<lambda>(h, k). h \<noteq> v \<or> k = v) (zip heads keys)
      | q # w2 \<Rightarrow> q = CHR '' '' \<and> word_key w2 \<and> \<not> List.member keys w1 \<and>
                  \<not> List.member heads w2))"

section \<open>The worked example of the analysis\<close>


section \<open>Opening keys\<close>

text \<open>
  Claim C1. The opening key of a sentence should be the lower-case join of its first
  two words. The code takes \<open>words\<close> from \<open>findall\<close> on a pattern with a group, so
  each word is only its apostrophe part: the sentence \<open>The results are clear.\<close> gets
  the key of one space, not \<open>the results\<close>; a one-word sentence gets the empty key.
\<close>

theorem opening_key_drops_words:
  "sentence_start (findall_words ''The results are clear.'') = '' '' \<and>
   sentence_start (findall_words ''The results are clear.'') \<noteq> ''the results'' \<and>
   sentence_start (findall_words ''Results.'') = [] \<and>
   sentence_start (findall_words ''I don't know.'') = [CHR '' '', CHR 0x27, CHR ''t'']"
  by code_simp

text \<open>
  Claim C2. A document in which the opening \<open>The results\<close> occurs exactly twice should
  give no repeated-start issue for it. With two more sentences of other openings the
  code reports a repeated start for all four sentences, under the key of one space.
  Four sentences that start \<open>The results\<close> are all reported, under that same key.
\<close>

theorem repeated_start_on_two_openings:
  "filter (\<lambda>i. type i = ''repeated_start'')
     (snd (analyse_text ''The results are good. The results are bad. A cat sat. A dog ran.'')) =
   [repeated_start_issue 1 '' '' ''The results are good.'',
    repeated_start_issue 2 '' '' ''The results are bad.'',
    repeated_start_issue 3 '' '' ''A cat sat.'',
    repeated_start_issue 4 '' '' ''A dog ran.''] \<and>
   filter (\<lambda>i. type i = ''repeated_start'')
     (snd (analyse_text ''The results a. The results b. The results c. The results d.'')) =
   [repeated_start_issue 1 '' '' ''The results a.'',
    repeated_start_issue 2 '' '' ''The results b.'',
    repeated_start_issue 3 '' '' ''The results c.'',
    repeated_start_issue 4 '' '' ''The results d.'']"
  by code_simp

section \<open>Case of contractions\<close>

text \<open>
  Claim C3. Contraction matching should not depend on case. The contraction pattern is
  compiled without \<open>re.IGNORECASE\<close> (the informal pattern has it): in \<open>Don't go.\<close>
  nothing is matched, the analysis reports no contraction and the rewriter leaves the
  word as it is, while \<open>don't\<close> is matched and \<open>Big\<close> is matched as informal.
\<close>

theorem contraction_case_sensitive:
  "contraction_finditer ''Don't go.'' = [] \<and>
   analyse_text ''Don't go.'' = ([''Don't go.''], [short_sentence_issue 1 2 ''Don't go.'']) \<and>
   expand_contractions ''Don't go.'' = ''Don't go.'' \<and>
   clean_text fill ''Don't go.'' wrap = fill ''Don't go.'' wrap \<and>
   contraction_finditer ''don't go.'' = [''don't''] \<and>
   informal_finditer ''Big deal.'' = [''Big'']"
  by code_simp

section \<open>Facts about the sentence segmenter\<close>

lemma not_mark_space: "is_space c \<Longrightarrow> \<not> is_mark c"
  by (auto simp: is_space_def is_mark_def code_def)

lemma not_mark_letter: "is_mark c \<Longrightarrow> \<not> is_ascii_letter c"
  by (auto simp: is_ascii_letter_def is_mark_def code_def)

lemma not_mark_word: "is_mark c \<Longrightarrow> \<not> is_word_char c"
  by (auto simp: is_word_char_def is_mark_def code_def)

lemma re_split_marks_no_mark:
  assumes "\<forall>c\<in>set s. \<not> is_mark c"
  shows "re_split_marks s = [s]"
proof -
  have h: "dropWhile (\<lambda>c. \<not> is_mark c) s = []"
    using assms by simp
  show ?thesis
    by (subst re_split_marks.simps, subst h, simp)
qed

lemma re_split_marks_at_mark:
  assumes "\<forall>c\<in>set a. \<not> is_mark c" and "is_mark m"
  shows "re_split_marks (a @ m # r) = a # [m] # re_split_marks r"
proof -
  have d: "dropWhile (\<lambda>c. \<not> is_mark c) (a @ m # r) = m # r"
    using assms by (simp add: dropWhile_append3)
  have t: "takeWhile (\<lambda>c. \<not> is_mark c) (a @ m # r) = a"
    using assms by (simp add: takeWhile_tail)
  show ?thesis
    by (subst re_split_marks.simps) (simp add: d t)
qed

lemma ex_dropWhile: "(\<exists>x\<in>set (dropWhile P s). \<not> P x) \<longleftrightarrow> (\<exists>x\<in>set s. \<not> P x)"
  by (induction s) auto

lemma strip_nonempty_iff: "strip s \<noteq> [] \<longleftrightarrow> (\<exists>c\<in>set s. \<not> is_space c)"
proof -
  have "strip s \<noteq> [] \<longleftrightarrow> (\<exists>x\<in>set (rev (dropWhile is_space s)). \<not> is_space x)"
    by (simp add: strip_def dropWhile_eq_Nil_conv)
  also have "\<dots> \<longleftrightarrow> (\<exists>c\<in>set s. \<not> is_space c)"
    by (simp add: ex_dropWhile)
  finally show ?thesis .
qed

lemma split_sentences_sents: "split_sentences t = sents (sub_mark_letter t)"
  by (simp add: split_sentences_def sents_def)

lemma re_split_marks_odd: "length (re_split_marks s) mod 2 = 1"
proof (induction s rule: re_split_marks.induct)
  case (1 s)
  show ?case
  proof (cases "dropWhile (\<lambda>c. \<not> is_mark c) s")
    case Nil
    show ?thesis by (subst re_split_marks.simps, subst Nil, simp)
  next
    case (Cons m rest)
    with 1 have "length (re_split_marks rest) mod 2 = 1" by simp
    then show ?thesis
      by (subst re_split_marks.simps, subst Cons) (simp add: mod_Suc)
  qed
qed

lemma re_split_marks_ne: "re_split_marks s \<noteq> []"
  using re_split_marks_odd [of s] by auto

lemma strip_mark_end:
  assumes "is_mark m"
  shows "strip (a @ [m]) = dropWhile is_space a @ [m]"
proof -
  have m: "\<not> is_space m" using assms not_mark_space by blast
  have "dropWhile is_space (a @ [m]) = dropWhile is_space a @ [m]"
    using m by (induction a) auto
  then show ?thesis using m by (simp add: strip_def)
qed

lemma sents_no_mark:
  assumes "\<forall>c\<in>set a. \<not> is_mark c"
  shows "sents a = (if strip a \<noteq> [] then [strip a] else [])"
  by (simp add: sents_def re_split_marks_no_mark [OF assms])

lemma sents_at_mark:
  assumes "\<forall>c\<in>set a. \<not> is_mark c" and "is_mark m"
  shows "sents (a @ m # r) = (dropWhile is_space a @ [m]) # sents r"
  using re_split_marks_ne [of r] re_split_marks_odd [of r]
  by (simp add: sents_def re_split_marks_at_mark [OF assms] strip_mark_end [OF assms(2)] Let_def)

lemma sub_mark_letter_no_mark:
  "\<forall>c\<in>set s. \<not> is_mark c \<Longrightarrow> sub_mark_letter s = s"
  by (induction s rule: sub_mark_letter.induct) auto

lemma fold_loop_body:
  "fold loop_body (enumerate n ss) (is0, st0) =
     (is0 @ concat (map (\<lambda>(idx, s). sentence_issues idx s) (enumerate n ss)),
      st0 @ map (\<lambda>s. sentence_start (findall_words s)) ss)"
  by (induction ss arbitrary: n is0 st0) (simp_all add: loop_body_def)

lemma analyse_text_eq:
  "analyse_text text =
     (split_sentences text,
      concat (map (\<lambda>(idx, s). sentence_issues idx s) (enumerate 1 (split_sentences text)))
      @ repeated_starts (split_sentences text)
          (map (\<lambda>s. sentence_start (findall_words s)) (split_sentences text)))"
  by (simp add: analyse_text_def fold_loop_body Let_def)

text \<open>
  Claim C9. A text that is not blank and has no \<open>.\<close>, \<open>!\<close> or \<open>?\<close> is exactly one
  sentence, the trimmed text, and the analysis handles that sentence as any other:
  its issues are those of the loop body for sentence 1, and no repeated start.
\<close>

theorem no_terminator_one_sentence:
  assumes "strip text \<noteq> []" and "\<forall>c\<in>set text. \<not> is_mark c"
  shows "split_sentences text = [strip text] \<and>
         analyse_text text = ([strip text], sentence_issues 1 (strip text))"
proof -
  have s: "split_sentences text = [strip text]"
    using assms
    by (simp add: split_sentences_sents sub_mark_letter_no_mark sents_no_mark)
  have "analyse_text text = ([strip text], sentence_issues 1 (strip text))"
    by (simp add: analyse_text_eq s repeated_starts_def)
  with s show ?thesis by simp
qed

theorem no_terminator_one_sentence_witness:
  "split_sentences '' We agree'' = [''We agree''] \<and>
   analyse_text '' We agree'' =
     ([''We agree''],
      [short_sentence_issue 1 2 ''We agree'', first_person_issue 1 ''We agree'' ''We''])"
proof -
  have h1: "strip '' We agree'' \<noteq> []" by code_simp
  have h2: "\<forall>c\<in>set '' We agree''. \<not> is_mark c" by code_simp
  have s: "strip '' We agree'' = ''We agree''" by code_simp
  have e: "sentence_issues 1 ''We agree'' =
             [short_sentence_issue 1 2 ''We agree'', first_person_issue 1 ''We agree'' ''We'']"
    by code_simp
  from no_terminator_one_sentence [OF h1 h2]
  have "split_sentences '' We agree'' = [''We agree''] \<and>
        analyse_text '' We agree'' =
          ([''We agree''],
           [short_sentence_issue 1 2 ''We agree'', first_person_issue 1 ''We agree'' ''We''])"
    unfolding s e .
  then show ?thesis .
qed

section \<open>Counting sentences\<close>

lemma count_sents_no_mark:
  "\<forall>c\<in>set a. \<not> is_mark c \<Longrightarrow>
   count_sents st (a @ r) = count_sents (st \<or> (\<exists>c\<in>set a. \<not> is_space c)) r"
  by (induction a arbitrary: st) (simp_all add: disj_assoc)

lemma split_decompose:
  "(\<forall>c\<in>set s. \<not> is_mark c) \<or>
   (\<exists>a m r. s = a @ m # r \<and> (\<forall>c\<in>set a. \<not> is_mark c) \<and> is_mark m)"
proof (cases "\<forall>c\<in>set s. \<not> is_mark c")
  case True then show ?thesis by simp
next
  case False
  then have "dropWhile (\<lambda>c. \<not> is_mark c) s \<noteq> []" by simp
  then obtain m r where d: "dropWhile (\<lambda>c. \<not> is_mark c) s = m # r"
    by (cases "dropWhile (\<lambda>c. \<not> is_mark c) s") auto
  then have m: "is_mark m" using hd_dropWhile [of "\<lambda>c. \<not> is_mark c" s] by force
  have "s = takeWhile (\<lambda>c. \<not> is_mark c) s @ m # r"
    using d takeWhile_dropWhile_id [of "\<lambda>c. \<not> is_mark c" s] by simp
  moreover have "\<forall>c\<in>set (takeWhile (\<lambda>c. \<not> is_mark c) s). \<not> is_mark c"
    by (auto dest: set_takeWhileD)
  ultimately show ?thesis using m by blast
qed

lemma length_sents: "length (sents s) = count_sents False s"
proof (induction "length s" arbitrary: s rule: less_induct)
  case less
  from split_decompose [of s] show ?case
  proof (elim disjE exE conjE)
    assume n: "\<forall>c\<in>set s. \<not> is_mark c"
    show ?thesis
      using count_sents_no_mark [OF n, of False "[]"]
      by (simp add: sents_no_mark [OF n] strip_nonempty_iff)
  next
    fix a m r
    assume s: "s = a @ m # r" and a: "\<forall>c\<in>set a. \<not> is_mark c" and m: "is_mark m"
    have "length (sents r) = count_sents False r"
      using less [of r] s by simp
    then show ?thesis
      using count_sents_no_mark [OF a, of False "m # r"] m
      by (simp add: s sents_at_mark [OF a m])
  qed
qed

lemma count_sents_sub_mark_letter:
  "count_sents st (sub_mark_letter s) = count_sents st s"
proof (induction s arbitrary: st rule: sub_mark_letter.induct)
  case (1 c d cs)
  show ?case
  proof (cases "is_mark c \<and> is_ascii_letter d")
    case True
    then have "\<not> is_mark d" using not_mark_letter by blast
    moreover have "is_space CHR '' ''" "\<not> is_mark CHR '' ''"
      by (simp_all add: is_space_def is_mark_def code_def)
    ultimately show ?thesis using True 1 by simp
  next
    case False
    with 1 show ?thesis by auto
  qed
qed simp_all

lemma length_split_sentences: "length (split_sentences t) = count_sents False t"
  by (simp add: split_sentences_sents length_sents count_sents_sub_mark_letter)

lemma ends_mark_iff:
  "ends_mark x \<longleftrightarrow> (\<exists>b m. x = b @ [m] \<and> is_mark m \<and> (\<forall>c\<in>set b. \<not> is_mark c))"
proof
  assume "ends_mark x"
  then have "x = butlast x @ [last x]" "is_mark (last x)" "\<forall>c\<in>set (butlast x). \<not> is_mark c"
    by (simp_all add: ends_mark_def list_all_iff)
  then show "\<exists>b m. x = b @ [m] \<and> is_mark m \<and> (\<forall>c\<in>set b. \<not> is_mark c)"
    by blast
next
  assume "\<exists>b m. x = b @ [m] \<and> is_mark m \<and> (\<forall>c\<in>set b. \<not> is_mark c)"
  then show "ends_mark x"
    by (auto simp: ends_mark_def list_all_iff)
qed

lemma tail_ok_iff:
  "tail_ok x \<longleftrightarrow> ((\<forall>c\<in>set x. \<not> is_mark c) \<and> (\<exists>c\<in>set x. \<not> is_space c))"
  by (simp add: tail_ok_def list_all_iff list_ex_iff)

lemma sents_shape_Cons: "ends_mark x \<Longrightarrow> sents_shape xs \<Longrightarrow> sents_shape (x # xs)"
  by (cases xs) auto

lemma set_strip: "set (strip x) \<subseteq> set x"
proof -
  have "set (dropWhile is_space (rev (dropWhile is_space x))) \<subseteq> set (dropWhile is_space x)"
    using set_dropWhileD [of _ is_space "rev (dropWhile is_space x)"] by auto
  also have "\<dots> \<subseteq> set x"
    using set_dropWhileD [of _ is_space x] by auto
  finally show ?thesis by (simp add: strip_def)
qed

lemma sents_shape_sents: "sents_shape (sents s)"
proof (induction "length s" arbitrary: s rule: less_induct)
  case less
  from split_decompose [of s] show ?case
  proof (elim disjE exE conjE)
    assume n: "\<forall>c\<in>set s. \<not> is_mark c"
    have "tail_ok (strip s)" if ne: "strip s \<noteq> []"
    proof -
      have "\<forall>c\<in>set (strip s). \<not> is_mark c"
        using n set_strip [of s] by blast
      moreover have "\<exists>c\<in>set (strip s). \<not> is_space c"
      proof -
        have "\<not> is_space (hd (dropWhile is_space (rev (dropWhile is_space s))))"
          using ne hd_dropWhile [of is_space "rev (dropWhile is_space s)"]
          by (simp add: strip_def)
        moreover have "hd (dropWhile is_space (rev (dropWhile is_space s))) \<in> set (strip s)"
          using ne by (simp add: strip_def)
        ultimately show ?thesis by blast
      qed
      ultimately show ?thesis by (simp add: tail_ok_iff)
    qed
    then show ?thesis
      by (simp add: sents_no_mark [OF n])
  next
    fix a m r
    assume s: "s = a @ m # r" and a: "\<forall>c\<in>set a. \<not> is_mark c" and m: "is_mark m"
    have "sents_shape (sents r)" using less [of r] s by simp
    moreover have "ends_mark (dropWhile is_space a @ [m])"
      using a m by (auto simp: ends_mark_iff dest: set_dropWhileD)
    ultimately show ?thesis
      by (simp add: s sents_at_mark [OF a m] sents_shape_Cons)
  qed
qed

lemma count_sents_ends_mark:
  "ends_mark x \<Longrightarrow> count_sents st (x @ r) = Suc (count_sents False r)"
  by (auto simp: ends_mark_iff count_sents_no_mark)

lemma count_sents_join:
  "sents_shape S \<Longrightarrow> count_sents False (join '' '' S) = length S"
proof (induction S rule: sents_shape.induct)
  case 1
  then show ?case by simp
next
  case (2 x)
  then show ?case
    using count_sents_ends_mark [of x False "[]"] count_sents_no_mark [of x False "[]"]
    by (auto simp: tail_ok_iff)
next
  case (3 x y ys)
  have sp: "is_space CHR '' ''" "\<not> is_mark CHR '' ''"
    by (simp_all add: is_space_def is_mark_def code_def)
  from 3 show ?case
    by (simp add: count_sents_ends_mark sp)
qed

text \<open>
  Claim C8. Joining the sentences of a text with single spaces and splitting the result
  again gives as many sentences as the first split.
\<close>

theorem segmentation_count_idempotent:
  "length (split_sentences (join '' '' (split_sentences text))) = length (split_sentences text)"
proof -
  have "sents_shape (split_sentences text)"
    by (simp add: split_sentences_sents sents_shape_sents)
  then have "count_sents False (join '' '' (split_sentences text)) = length (split_sentences text)"
    by (rule count_sents_join)
  then show ?thesis
    by (simp only: length_split_sentences [of "join '' '' (split_sentences text)"])
qed

section \<open>Adjacent terminal marks\<close>

lemma sub_mark_letter_head: "\<exists>r. sub_mark_letter (c # cs) = c # r"
  by (cases cs) auto

lemma sub_mark_letter_adjacent:
  assumes "is_mark m1" and "is_mark m2"
  shows "\<exists>a' b'. sub_mark_letter (a @ m1 # m2 # b) = a' @ m1 # m2 # b'"
proof (induction a rule: sub_mark_letter.induct)
  case (1 c d cs)
  show ?case
  proof (cases "is_mark c \<and> is_ascii_letter d")
    case True
    with 1 obtain a' b' where "sub_mark_letter (cs @ m1 # m2 # b) = a' @ m1 # m2 # b'"
      by blast
    with True have "sub_mark_letter ((c # d # cs) @ m1 # m2 # b) = (c # CHR '' '' # d # a') @ m1 # m2 # b'"
      by simp
    then show ?thesis by blast
  next
    case False
    with 1 obtain a' b' where "sub_mark_letter ((d # cs) @ m1 # m2 # b) = a' @ m1 # m2 # b'"
      by blast
    with False have "sub_mark_letter ((c # d # cs) @ m1 # m2 # b) = (c # a') @ m1 # m2 # b'"
      by auto
    then show ?thesis by blast
  qed
next
  case 3
  obtain r where "sub_mark_letter (m2 # b) = m2 # r"
    using sub_mark_letter_head by blast
  then have "sub_mark_letter ([] @ m1 # m2 # b) = [] @ m1 # m2 # r"
    using assms not_mark_letter by simp
  then show ?case by blast
next
  case (2 v)
  obtain r where "sub_mark_letter (m2 # b) = m2 # r"
    using sub_mark_letter_head by blast
  then have "sub_mark_letter ([v] @ m1 # m2 # b) = [v] @ m1 # m2 # r"
    using assms not_mark_letter by simp
  then show ?case by blast
qed

lemma sents_Nil: "sents [] = []"
  using sents_no_mark [of "[]"] by (simp add: strip_def)

lemma sents_append_mark:
  assumes m: "is_mark m"
  shows "sents (p @ m # r) = sents (p @ [m]) @ sents r"
proof (induction "length p" arbitrary: p rule: less_induct)
  case less
  from split_decompose [of p] show ?case
  proof (elim disjE exE conjE)
    assume n: "\<forall>c\<in>set p. \<not> is_mark c"
    show ?thesis
      by (simp add: sents_at_mark [OF n m] sents_Nil)
  next
    fix a m' p'
    assume p: "p = a @ m' # p'" and a: "\<forall>c\<in>set a. \<not> is_mark c" and m': "is_mark m'"
    have "sents (p' @ m # r) = sents (p' @ [m]) @ sents r"
      using less [of p'] p by simp
    then show ?thesis
      using sents_at_mark [OF a m', of "p' @ m # r"] sents_at_mark [OF a m', of "p' @ [m]"]
      by (simp add: p)
  qed
qed

lemma split_sentences_adjacent:
  assumes "is_mark m1" and "is_mark m2"
  shows "\<exists>X Y. split_sentences (a @ m1 # m2 # b) = X @ [m2] # Y"
proof -
  obtain a' b' where "sub_mark_letter (a @ m1 # m2 # b) = a' @ m1 # m2 # b'"
    using sub_mark_letter_adjacent [OF assms] by blast
  moreover have "sents (a' @ m1 # m2 # b') = sents (a' @ [m1]) @ [m2] # sents b'"
    using sents_append_mark [OF assms(1), of a' "m2 # b'"] sents_at_mark [of "[]" m2 b'] assms(2)
    by simp
  ultimately have "split_sentences (a @ m1 # m2 # b) = sents (a' @ [m1]) @ [m2] # sents b'"
    by (simp add: split_sentences_sents)
  then show ?thesis by blast
qed

lemma re_finditer_single_nonword:
  "\<not> is_word_char c \<Longrightarrow> re_finditer ic keys None [c] = []"
  by (simp add: alt_match_def word_boundary_def word_opt_def)

lemma sentence_issues_mark:
  assumes "is_mark m"
  shows "sentence_issues idx [m] = [short_sentence_issue idx 0 [m]]"
proof -
  have w: "\<not> is_word_char m" using assms not_mark_word by blast
  have "contraction_finditer [m] = []" "informal_finditer [m] = []" "first_person_finditer [m] = []"
    unfolding contraction_finditer_def informal_finditer_def first_person_finditer_def
    by (rule re_finditer_single_nonword [OF w])+
  then show ?thesis
    using w by (simp add: sentence_issues_def length_issues_def)
qed

lemma sentence_issues_in_analysis:
  assumes "i < length (split_sentences text)"
  shows "set (sentence_issues (Suc i) (split_sentences text ! i)) \<subseteq> set (snd (analyse_text text))"
proof -
  have "(Suc i, split_sentences text ! i) \<in> set (enumerate 1 (split_sentences text))"
    using assms by (simp add: in_set_enumerate_eq)
  then show ?thesis
    by (force simp: analyse_text_eq)
qed

text \<open>
  Claim C10. When two terminal marks are adjacent in the input, the second one is a
  sentence of its own; it has no word, and the analysis reports it as a short sentence
  of 0 words. In \<open>Wait.. go.\<close> the sentences are \<open>Wait.\<close>, \<open>.\<close> and \<open>go.\<close>.
\<close>

theorem adjacent_marks:
  assumes "is_mark m1" and "is_mark m2"
  shows "\<exists>i < length (split_sentences (a @ m1 # m2 # b)).
           split_sentences (a @ m1 # m2 # b) ! i = [m2] \<and>
           findall_words (split_sentences (a @ m1 # m2 # b) ! i) = [] \<and>
           short_sentence_issue (Suc i) 0 [m2] \<in> set (snd (analyse_text (a @ m1 # m2 # b)))"
proof -
  let ?t = "a @ m1 # m2 # b"
  obtain X Y where s: "split_sentences ?t = X @ [m2] # Y"
    using split_sentences_adjacent [OF assms] by blast
  have i: "length X < length (split_sentences ?t)" and n: "split_sentences ?t ! length X = [m2]"
    by (simp_all add: s)
  have "short_sentence_issue (Suc (length X)) 0 [m2] \<in> set (snd (analyse_text ?t))"
    using sentence_issues_in_analysis [OF i] sentence_issues_mark [OF assms(2)]
    by (simp add: n)
  moreover have "findall_words [m2] = []"
    using assms(2) not_mark_word by simp
  ultimately show ?thesis using i n by auto
qed

theorem adjacent_marks_witness:
  "is_mark CHR ''.'' \<and>
   (\<exists>i < length (split_sentences ''Wait.. go.'').
      split_sentences ''Wait.. go.'' ! i = ''.'' \<and>
      findall_words (split_sentences ''Wait.. go.'' ! i) = [] \<and>
      short_sentence_issue (Suc i) 0 ''.'' \<in> set (snd (analyse_text ''Wait.. go.''))) \<and>
   analyse_text ''Wait.. go.'' =
     ([''Wait.'', ''.'', ''go.''],
      [short_sentence_issue 1 1 ''Wait.'', short_sentence_issue 2 0 ''.'',
       short_sentence_issue 3 1 ''go.''])"
proof -
  have h: "is_mark CHR ''.''" by (simp add: is_mark_def)
  have e: "analyse_text ''Wait.. go.'' =
     ([''Wait.'', ''.'', ''go.''],
      [short_sentence_issue 1 1 ''Wait.'', short_sentence_issue 2 0 ''.'',
       short_sentence_issue 3 1 ''go.''])"
    by code_simp
  from adjacent_marks [OF h h, of "''Wait''" "'' go.''"] h e show ?thesis
    by simp
qed

section \<open>The humaniser without connector draws\<close>

lemma ends_mark_ne: "ends_mark x \<Longrightarrow> x \<noteq> []"
  by (auto simp: ends_mark_iff)

lemma tail_ok_ne: "tail_ok x \<Longrightarrow> x \<noteq> []"
  by (auto simp: tail_ok_iff)

lemma sents_shape_ne: "sents_shape S \<Longrightarrow> x \<in> set S \<Longrightarrow> x \<noteq> []"
  by (induction S rule: sents_shape.induct) (auto dest: ends_mark_ne tail_ok_ne)

lemma split_sentences_ne: "x \<in> set (split_sentences t) \<Longrightarrow> x \<noteq> []"
  using sents_shape_ne [OF sents_shape_sents] by (simp add: split_sentences_sents)

lemma re_sub_ne:
  "s \<noteq> [] \<Longrightarrow> (\<And>m. repl m \<noteq> []) \<Longrightarrow> re_sub ic keys repl prev s \<noteq> []"
  by (cases s) (auto split: option.splits)

lemma apply_light_rephrasings_ne:
  assumes "s \<noteq> []"
  shows "apply_light_rephrasings s \<noteq> []"
  using assms
  by (simp add: apply_light_rephrasings_def LIGHT_REPHRASINGS_def re_sub_ne)

lemma academic_tone_first:
  "academic_tone random choice s 0 n g = (Inr (or_else (apply_light_rephrasings s) s), g)"
  by (simp add: academic_tone_def)

lemma academic_tone_quiet:
  assumes "\<forall>g. \<not> fst (random g) < threshold"
  shows "fst (academic_tone random choice s idx n g) = Inr (or_else (apply_light_rephrasings s) s)"
proof (cases "0 < idx \<and> idx < n")
  case True
  obtain r g1 where r: "random g = (r, g1)" by (cases "random g")
  with assms have "\<not> r < threshold" by (metis fst_conv)
  with True r show ?thesis by (simp add: academic_tone_def)
next
  case False
  then show ?thesis by (auto simp: academic_tone_def)
qed

lemma tone_loop_quiet:
  assumes "\<forall>g. \<not> fst (random g) < threshold"
  shows "tone_loop random choice n idx g ss = Inr (map (\<lambda>s. or_else (apply_light_rephrasings s) s) ss)"
proof (induction ss arbitrary: idx g)
  case Nil
  then show ?case by simp
next
  case (Cons s ss)
  obtain g' where "academic_tone random choice s idx n g = (Inr (or_else (apply_light_rephrasings s) s), g')"
    using academic_tone_quiet [OF assms, of choice s idx n g]
    by (cases "academic_tone random choice s idx n g") auto
  then show ?case by (simp add: Cons)
qed

lemma count_sents_pos:
  "st \<or> (\<exists>c\<in>set t. \<not> is_space c) \<Longrightarrow> 0 < count_sents st t"
  by (induction t arbitrary: st) auto

lemma strip_has_nonspace:
  assumes "strip u \<noteq> []"
  shows "\<exists>c\<in>set (strip u). \<not> is_space c"
proof -
  have "\<not> is_space (hd (dropWhile is_space (rev (dropWhile is_space u))))"
    using assms hd_dropWhile [of is_space "rev (dropWhile is_space u)"]
    by (simp add: strip_def)
  moreover have "hd (dropWhile is_space (rev (dropWhile is_space u))) \<in> set (strip u)"
    using assms by (simp add: strip_def)
  ultimately show ?thesis by blast
qed

lemma split_sentences_strip_ne:
  assumes "strip u \<noteq> []"
  shows "split_sentences (strip u) \<noteq> []"
proof -
  have "0 < count_sents False (strip u)"
    using strip_has_nonspace [OF assms] by (intro count_sents_pos) simp
  then have "0 < length (split_sentences (strip u))"
    by (simp only: length_split_sentences)
  then show ?thesis by simp
qed

lemma humanise_first_sentence:
  assumes "strip (sub_spaces text) \<noteq> []"
  shows "humanise_uk_academic random choice fill g text wrap =
           (case tone_loop random choice (length (split_sentences (strip (sub_spaces text))))
                   1 g (tl (split_sentences (strip (sub_spaces text)))) of
              Inl e \<Rightarrow> Inl e
            | Inr rest \<Rightarrow>
                Inr (fill (join '' '' (apply_light_rephrasings
                                        (hd (split_sentences (strip (sub_spaces text)))) # rest))
                          wrap))"
proof -
  let ?S = "split_sentences (strip (sub_spaces text))"
  obtain s0 ss where S: "?S = s0 # ss"
    using split_sentences_strip_ne [OF assms] by (cases ?S) auto
  have "s0 \<noteq> []" using split_sentences_ne [of s0 "strip (sub_spaces text)"] S by simp
  then have o: "or_else (apply_light_rephrasings s0) s0 = apply_light_rephrasings s0"
    by (simp add: or_else_def apply_light_rephrasings_ne)
  have "tone_loop random choice (length ?S) 0 g ?S =
          (case tone_loop random choice (length ?S) 1 g ss of
             Inl e \<Rightarrow> Inl e
           | Inr new \<Rightarrow> Inr (apply_light_rephrasings s0 # new))"
    by (subst (2) S) (simp add: academic_tone_first o)
  then show ?thesis
    using assms
    by (cases "tone_loop random choice (length ?S) 1 g ss")
       (simp_all add: humanise_uk_academic_def Let_def S)
qed

text \<open>
  Claim C6. With a random source whose every draw is not below the threshold, the
  humaniser inserts no connector: its output is \<open>fill\<close> of the single-space join of
  the light-rephrased sentences, in their order. And with any random source, the
  humaniser's first sentence gets no connector: the output is \<open>fill\<close> of the join of the
  first sentence, rephrased only, and of what the loop makes of the other sentences
  from index 1 on, with the random source still in its initial state.
\<close>

theorem humanise_without_connectors:
  "((\<forall>g. \<not> fst (random g) < threshold) \<longrightarrow>
      humanise_uk_academic random choice fill g text wrap =
        Inr (if strip (sub_spaces text) = [] then []
             else fill (join '' '' (map apply_light_rephrasings
                                      (split_sentences (strip (sub_spaces text))))) wrap)) \<and>
   humanise_uk_academic random' choice' fill' g' text' wrap' =
     (if strip (sub_spaces text') = [] then Inr []
      else case tone_loop random' choice' (length (split_sentences (strip (sub_spaces text'))))
                  1 g' (tl (split_sentences (strip (sub_spaces text')))) of
             Inl e \<Rightarrow> Inl e
           | Inr rest \<Rightarrow>
               Inr (fill' (join '' '' (apply_light_rephrasings
                                        (hd (split_sentences (strip (sub_spaces text')))) # rest))
                          wrap'))"
proof -
  let ?t = "strip (sub_spaces text)"
  have m: "map (\<lambda>s. or_else (apply_light_rephrasings s) s) (split_sentences ?t) =
           map apply_light_rephrasings (split_sentences ?t)"
    using split_sentences_ne [of _ ?t]
    by (auto simp: or_else_def apply_light_rephrasings_ne)
  have a: "(\<forall>g. \<not> fst (random g) < threshold) \<longrightarrow>
      humanise_uk_academic random choice fill g text wrap =
        Inr (if ?t = [] then []
             else fill (join '' '' (map apply_light_rephrasings (split_sentences ?t))) wrap)"
    by (simp add: humanise_uk_academic_def tone_loop_quiet m Let_def)
  have b: "humanise_uk_academic random' choice' fill' g' text' wrap' =
     (if strip (sub_spaces text') = [] then Inr []
      else case tone_loop random' choice' (length (split_sentences (strip (sub_spaces text'))))
                  1 g' (tl (split_sentences (strip (sub_spaces text')))) of
             Inl e \<Rightarrow> Inl e
           | Inr rest \<Rightarrow>
               Inr (fill' (join '' '' (apply_light_rephrasings
                                        (hd (split_sentences (strip (sub_spaces text')))) # rest))
                          wrap'))"
  proof (cases "strip (sub_spaces text') = []")
    case True
    then show ?thesis by (simp add: humanise_uk_academic_def)
  next
    case False
    then show ?thesis
      using humanise_first_sentence [OF False, of random' choice' fill' g' wrap']
      by (simp only: if_False)
  qed
  show ?thesis by (rule conjI [OF a b])
qed

theorem humanise_without_connectors_witness:
  "humanise_uk_academic (\<lambda>g. (1 / 2, Suc g)) (\<lambda>xs g. (hd xs, g)) (\<lambda>s w. s) (0::nat)
     ''First one.  In conclusion, we stop.'' 90 = Inr ''First one. overall, we stop.'' \<and>
   humanise_uk_academic (\<lambda>g. (0, Suc g)) (\<lambda>xs g. (hd xs, g)) (\<lambda>s w. s) (0::nat)
     ''A one. B two. C three.'' 90 = Inr ''A one. Moreover, b two. Moreover, c three.''"
proof -
  have h: "\<forall>g::nat. \<not> fst ((\<lambda>g. (1 / 2, Suc g)) g) < threshold"
    by (simp add: threshold_def)
  have e: "(if strip (sub_spaces ''First one.  In conclusion, we stop.'') = [] then []
            else (\<lambda>s w. s)
                   (join '' '' (map apply_light_rephrasings
                      (split_sentences (strip (sub_spaces ''First one.  In conclusion, we stop.'')))))
                   (90::nat)) = ''First one. overall, we stop.''"
    by code_simp
  have "humanise_uk_academic (\<lambda>g. (1 / 2, Suc g)) (\<lambda>xs g. (hd xs, g)) (\<lambda>s w. s) (0::nat)
     ''First one.  In conclusion, we stop.'' 90 =
        Inr (if strip (sub_spaces ''First one.  In conclusion, we stop.'') = [] then []
            else (\<lambda>s w. s)
                   (join '' '' (map apply_light_rephrasings
                      (split_sentences (strip (sub_spaces ''First one.  In conclusion, we stop.'')))))
                   (90::nat))"
    by (rule humanise_without_connectors
               [of "\<lambda>g. (1 / 2, Suc g)" "\<lambda>xs g. (hd xs, g)" "\<lambda>s w. s" 0
                   "''First one.  In conclusion, we stop.''" 90,
                THEN conjunct1, THEN mp, OF h])
  then have a: "humanise_uk_academic (\<lambda>g. (1 / 2, Suc g)) (\<lambda>xs g. (hd xs, g)) (\<lambda>s w. s) (0::nat)
     ''First one.  In conclusion, we stop.'' 90 = Inr ''First one. overall, we stop.''"
    unfolding e .
  have f: "(if strip (sub_spaces ''A one. B two. C three.'') = [] then Inr []
      else case tone_loop (\<lambda>g. (0, Suc g)) (\<lambda>xs g. (hd xs, g))
                  (length (split_sentences (strip (sub_spaces ''A one. B two. C three.''))))
                  1 (0::nat) (tl (split_sentences (strip (sub_spaces ''A one. B two. C three.'')))) of
             Inl e \<Rightarrow> Inl e
           | Inr rest \<Rightarrow>
               Inr ((\<lambda>s w. s) (join '' '' (apply_light_rephrasings
                                        (hd (split_sentences (strip (sub_spaces ''A one. B two. C three.'')))) # rest))
                          (90::nat))) = Inr ''A one. Moreover, b two. Moreover, c three.''"
    by code_simp
  have "humanise_uk_academic (\<lambda>g. (0, Suc g)) (\<lambda>xs g. (hd xs, g)) (\<lambda>s w. s) (0::nat)
     ''A one. B two. C three.'' 90 =
     (if strip (sub_spaces ''A one. B two. C three.'') = [] then Inr []
      else case tone_loop (\<lambda>g. (0, Suc g)) (\<lambda>xs g. (hd xs, g))
                  (length (split_sentences (strip (sub_spaces ''A one. B two. C three.''))))
                  1 (0::nat) (tl (split_sentences (strip (sub_spaces ''A one. B two. C three.'')))) of
             Inl e \<Rightarrow> Inl e
           | Inr rest \<Rightarrow>
               Inr ((\<lambda>s w. s) (join '' '' (apply_light_rephrasings
                                        (hd (split_sentences (strip (sub_spaces ''A one. B two. C three.'')))) # rest))
                          (90::nat)))"
    by (rule humanise_without_connectors
               [where random' = "\<lambda>g. (0, Suc g)" and choice' = "\<lambda>xs g. (hd xs, g)"
                  and fill' = "\<lambda>s w. s" and g' = "0::nat"
                  and text' = "''A one. B two. C three.''" and wrap' = 90,
                THEN conjunct2])
  then have b: "humanise_uk_academic (\<lambda>g. (0, Suc g)) (\<lambda>xs g. (hd xs, g)) (\<lambda>s w. s) (0::nat)
     ''A one. B two. C three.'' 90 = Inr ''A one. Moreover, b two. Moreover, c three.''"
    unfolding f .
  show ?thesis by (rule conjI [OF a b])
qed

section \<open>Patterns whose keys are single words\<close>

lemma word_key_iff: "word_key k \<longleftrightarrow> (k \<noteq> [] \<and> (\<forall>x\<in>set k. is_word_char x))"
  by (simp add: word_key_def list_all_iff)

lemma literal_at_False: "literal_at False k s \<longleftrightarrow> (\<exists>r. s = k @ r)"
proof (induction k arbitrary: s)
  case Nil
  then show ?case by simp
next
  case (Cons a k)
  then show ?case by (cases s) auto
qed

lemma takeWhile_run:
  assumes "\<forall>x\<in>set k. P x" and "r = [] \<or> \<not> P (hd r)"
  shows "takeWhile P (k @ r) = k"
  using assms by (cases r) (simp_all add: takeWhile_tail)

lemma dropWhile_run:
  assumes "\<forall>x\<in>set k. P x" and "r = [] \<or> \<not> P (hd r)"
  shows "dropWhile P (k @ r) = r"
  using assms by (cases r) (simp_all add: dropWhile_append3)

lemma dropWhile_start: "dropWhile P s = [] \<or> \<not> P (hd (dropWhile P s))"
  using hd_dropWhile [of P s] by blast

lemma word_opt_simps: "word_opt None = False" "word_opt (Some c) = is_word_char c"
  by (simp_all add: word_opt_def)

lemma last_takeWhile: "takeWhile P xs \<noteq> [] \<Longrightarrow> P (last (takeWhile P xs))"
  using last_in_set [of "takeWhile P xs"] set_takeWhileD [of _ P xs] by blast

lemma first_char_word: "word_opt (first_char r) \<longleftrightarrow> (r \<noteq> [] \<and> is_word_char (hd r))"
  by (cases r) (simp_all add: word_opt_def)

lemma key_at_word_key:
  assumes "word_key k"
  shows "key_at False prev s k \<longleftrightarrow> takeWhile is_word_char s = k"
proof
  assume "key_at False prev s k"
  then obtain r where s: "s = k @ r"
    and b: "word_boundary (Some (last (take (length k) s))) (first_char (drop (length k) s))"
    using assms by (auto simp: key_at_def literal_at_False word_key_iff)
  have "is_word_char (last k)" using assms by (simp add: word_key_iff)
  with b s have "r = [] \<or> \<not> is_word_char (hd r)"
    by (auto simp: word_boundary_def first_char_word word_opt_simps)
  then show "takeWhile is_word_char s = k"
    using assms s takeWhile_run [of k is_word_char r] by (simp add: word_key_iff)
next
  assume t: "takeWhile is_word_char s = k"
  define r where "r = dropWhile is_word_char s"
  have s: "s = k @ r"
    using t takeWhile_dropWhile_id [of is_word_char s] by (simp add: r_def)
  have r: "r = [] \<or> \<not> is_word_char (hd r)"
    unfolding r_def by (rule dropWhile_start)
  have "is_word_char (last k)" using assms by (simp add: word_key_iff)
  with r show "key_at False prev s k"
    using assms
    by (auto simp: key_at_def literal_at_False s word_boundary_def first_char_word word_opt_simps word_key_iff)
qed

lemma find_eq: "find (\<lambda>k. x = k) ks = (if x \<in> set ks then Some x else None)"
  by (induction ks) auto

lemma alt_match_word_keys:
  assumes "\<forall>k\<in>set keys. word_key k"
  shows "alt_match False keys prev s =
           (if \<not> word_opt prev \<and> takeWhile is_word_char s \<in> set keys
            then Some (takeWhile is_word_char s) else None)"
proof -
  have f: "find (key_at False prev s) keys = find (\<lambda>k. takeWhile is_word_char s = k) keys"
    using assms by (intro find_cong) (simp_all add: key_at_word_key)
  show ?thesis
  proof (cases "takeWhile is_word_char s \<in> set keys")
    case True
    then have k: "word_key (takeWhile is_word_char s)" using assms by blast
    then have "s \<noteq> []" "is_word_char (hd s)"
      by (cases s; auto simp: word_key_iff split: if_splits)+
    then have "word_boundary prev (first_char s) \<longleftrightarrow> \<not> word_opt prev"
      by (simp add: word_boundary_def first_char_word)
    moreover have "take (length (takeWhile is_word_char s)) s = takeWhile is_word_char s"
      by (metis append_eq_conv_conj takeWhile_dropWhile_id)
    ultimately show ?thesis
      using True by (simp add: alt_match_def f find_eq)
  next
    case False
    then show ?thesis by (simp add: alt_match_def f find_eq)
  qed
qed

lemma re_finditer_word_keys:
  assumes "\<forall>k\<in>set keys. word_key k"
  shows "re_finditer False keys prev s =
           filter (\<lambda>w. w \<in> set keys)
             (whole_words (if word_opt prev then dropWhile is_word_char s else s))"
proof (induction "length s" arbitrary: s prev rule: less_induct)
  case less
  show ?case
  proof (cases s)
    case Nil
    then show ?thesis by simp
  next
    case (Cons c cs)
    note am = alt_match_word_keys [OF assms]
    show ?thesis
    proof (cases "word_opt prev")
      case True
      have "re_finditer False keys prev s = re_finditer False keys (Some c) cs"
        using True by (simp add: Cons am)
      also have "\<dots> = filter (\<lambda>w. w \<in> set keys)
             (whole_words (if is_word_char c then dropWhile is_word_char cs else cs))"
        using less [of cs "Some c"] Cons by (simp add: word_opt_simps)
      finally show ?thesis using True Cons by simp
    next
      case False
      show ?thesis
      proof (cases "is_word_char c")
        case nw: False
        then have "[] \<notin> set keys" using assms by (auto simp: word_key_iff)
        then have "re_finditer False keys prev s = re_finditer False keys (Some c) cs"
          using nw by (simp add: Cons am)
        also have "\<dots> = filter (\<lambda>w. w \<in> set keys) (whole_words cs)"
          using less [of cs "Some c"] Cons nw by (simp add: word_opt_simps)
        finally show ?thesis using False Cons nw by simp
      next
        case w: True
        let ?run = "c # takeWhile is_word_char cs"
        let ?rest = "dropWhile is_word_char cs"
        have ww: "whole_words s = ?run # whole_words ?rest"
          using w Cons by simp
        have len: "length ?rest < length s"
          using length_dropWhile_le [of is_word_char cs] Cons by simp
        show ?thesis
        proof (cases "?run \<in> set keys")
          case True
          have lw: "word_opt (Some (last ?run))"
            using w last_takeWhile [of is_word_char cs] by (simp add: word_opt_simps)
          have "re_finditer False keys prev s =
                  ?run # re_finditer False keys (Some (last ?run)) ?rest"
            using True False w by (simp add: Cons am dropWhile_eq_drop)
          also have "re_finditer False keys (Some (last ?run)) ?rest =
                  filter (\<lambda>w. w \<in> set keys) (whole_words ?rest)"
            using less [OF len, of "Some (last ?run)"] lw by simp
          finally show ?thesis using True False ww by simp
        next
          case nk: False
          have "re_finditer False keys prev s = re_finditer False keys (Some c) cs"
            using nk w by (simp add: Cons am)
          also have "\<dots> = filter (\<lambda>w. w \<in> set keys) (whole_words ?rest)"
            using less [of cs "Some c"] Cons w by (simp add: word_opt_simps)
          finally show ?thesis using nk False ww by simp
        qed
      qed
    qed
  qed
qed

lemma first_person_keys: "\<forall>k\<in>set FIRST_PERSON_PATTERN. word_key k"
  by (simp add: FIRST_PERSON_PATTERN_def word_key_iff is_word_char_def code_def)

lemma first_person_finditer_eq:
  "first_person_finditer s = filter (\<lambda>w. w \<in> set FIRST_PERSON_PATTERN) (whole_words s)"
  using re_finditer_word_keys [OF first_person_keys, of None s]
  by (simp add: first_person_finditer_def word_opt_def)

section \<open>First-person pronouns\<close>

lemma issue_types:
  "type (long_sentence_issue idx n s) = ''long_sentence''"
  "type (short_sentence_issue idx n s) = ''short_sentence''"
  "type (contraction_issue idx s m) = ''contraction''"
  "type (informal_issue idx s m) = ''informal''"
  "type (first_person_issue idx s m) = ''first_person''"
  "type (repeated_start_issue idx k s) = ''repeated_start''"
  by (simp_all add: long_sentence_issue_def short_sentence_issue_def contraction_issue_def
      informal_issue_def first_person_issue_def repeated_start_issue_def Let_def)

lemma filter_map_none: "(\<And>x. \<not> P (f x)) \<Longrightarrow> filter P (map f xs) = []"
  by (induction xs) auto

lemma filter_map_all: "(\<And>x. P (f x)) \<Longrightarrow> filter P (map f xs) = map f xs"
  by (induction xs) auto

lemma first_person_of_sentence:
  "filter (\<lambda>i. type i = ''first_person'') (sentence_issues idx s) =
     map (first_person_issue idx s) (first_person_finditer s)"
proof -
  have "filter (\<lambda>i. type i = ''first_person'') (length_issues idx s n) = []" for n
    by (simp add: length_issues_def issue_types)
  moreover have "filter (\<lambda>i. type i = ''first_person'') (map (contraction_issue idx s) xs) = []" for xs
    by (rule filter_map_none) (simp add: issue_types)
  moreover have "filter (\<lambda>i. type i = ''first_person'') (map (informal_issue idx s) xs) = []" for xs
    by (rule filter_map_none) (simp add: issue_types)
  moreover have "filter (\<lambda>i. type i = ''first_person'') (map (first_person_issue idx s) xs) =
                   map (first_person_issue idx s) xs" for xs
    by (rule filter_map_all) (simp add: issue_types)
  ultimately show ?thesis
    by (simp add: sentence_issues_def Let_def)
qed

lemma first_person_of_repeated:
  "filter (\<lambda>i. type i = ''first_person'') (repeated_starts sentences starts) = []"
  by (simp add: repeated_starts_def filter_concat issue_types split_def)

lemma first_person_of_concat:
  "filter (\<lambda>i. type i = ''first_person'')
     (concat (map (\<lambda>(idx, s). sentence_issues idx s) ps)) =
   concat (map (\<lambda>(idx, s). map (first_person_issue idx s) (first_person_finditer s)) ps)"
  by (induction ps) (auto simp: first_person_of_sentence)

text \<open>
  Claim C5. The first-person issues of the analysis are, sentence by sentence and in
  order, one issue for each whole word that is one of the six forms \<open>I\<close>, \<open>we\<close>,
  \<open>We\<close>, \<open>our\<close>, \<open>Our\<close>, \<open>us\<close>. So the matcher returns exactly those whole
  words, and never \<open>i\<close>, \<open>Us\<close> or \<open>OUR\<close>.
\<close>

theorem first_person_exact_forms:
  "filter (\<lambda>i. type i = ''first_person'') (snd (analyse_text text)) =
     concat (map (\<lambda>(idx, s).
                    map (first_person_issue idx s)
                      (filter (\<lambda>w. w \<in> {''I'', ''we'', ''We'', ''our'', ''Our'', ''us''})
                              (whole_words s)))
                 (enumerate 1 (split_sentences text))) \<and>
   first_person_finditer s =
     filter (\<lambda>w. w \<in> {''I'', ''we'', ''We'', ''our'', ''Our'', ''us''}) (whole_words s) \<and>
   ''i'' \<notin> set (first_person_finditer s) \<and>
   ''Us'' \<notin> set (first_person_finditer s) \<and>
   ''OUR'' \<notin> set (first_person_finditer s)"
proof -
  have e: "first_person_finditer u =
        filter (\<lambda>w. w \<in> {''I'', ''we'', ''We'', ''our'', ''Our'', ''us''}) (whole_words u)" for u
    using first_person_finditer_eq [of u] by (simp add: FIRST_PERSON_PATTERN_def)
  have "filter (\<lambda>i. type i = ''first_person'') (snd (analyse_text text)) =
     concat (map (\<lambda>(idx, s). map (first_person_issue idx s) (first_person_finditer s))
                 (enumerate 1 (split_sentences text)))"
    by (simp add: analyse_text_eq first_person_of_concat first_person_of_repeated)
  then show ?thesis
    by (simp add: e)
qed

section \<open>Patterns whose keys are words or apostrophe forms\<close>

lemma apostrophe_not_word: "\<not> is_word_char (CHR 0x27)"
  by (simp add: is_word_char_def code_def)

lemma key_shape_ne: "key_shape k \<Longrightarrow> k \<noteq> []"
  by (auto simp: key_shape_def word_key_iff apos_key_def)

lemma key_shape_hd: "key_shape k \<Longrightarrow> is_word_char (hd k)"
proof -
  assume "key_shape k"
  then have "takeWhile is_word_char k \<noteq> []"
    by (cases k) (auto simp: key_shape_def word_key_iff apos_key_def split: if_splits)
  then show ?thesis by (cases k) (auto split: if_splits)
qed

lemma apos_at_split:
  assumes "apos_at s \<noteq> []"
  shows "\<exists>r. dropWhile is_word_char s = CHR 0x27 # r \<and> takeWhile is_word_char r \<noteq> [] \<and>
             apos_at s = takeWhile is_word_char s @ CHR 0x27 # takeWhile is_word_char r \<and>
             s = apos_at s @ dropWhile is_word_char r"
proof -
  obtain q r where d: "dropWhile is_word_char s = q # r"
    using assms by (cases "dropWhile is_word_char s") (auto simp: apos_at_def)
  with assms have q: "q = CHR 0x27" and t: "takeWhile is_word_char r \<noteq> []"
    by (auto simp: apos_at_def split: if_splits)
  then have a: "apos_at s = takeWhile is_word_char s @ CHR 0x27 # takeWhile is_word_char r"
    using d by (simp add: apos_at_def)
  have "s = takeWhile is_word_char s @ CHR 0x27 # r"
    using d q takeWhile_dropWhile_id [of is_word_char s] by simp
  also have "r = takeWhile is_word_char r @ dropWhile is_word_char r" by simp
  finally have "s = apos_at s @ dropWhile is_word_char r"
    using a by simp
  with d q t a show ?thesis by blast
qed

lemma candidate_take: "candidate s k \<Longrightarrow> take (length k) s = k"
proof (cases "k = []")
  case True
  then show ?thesis by simp
next
  case False
  assume "candidate s k"
  then consider "k = takeWhile is_word_char s" | "k = apos_at s"
    by (auto simp: candidate_def)
  then show ?thesis
  proof cases
    case 1
    then show ?thesis
      by (metis append_eq_conv_conj takeWhile_dropWhile_id)
  next
    case 2
    with False obtain r where "s = k @ dropWhile is_word_char r"
      using apos_at_split [of s] by auto
    then show ?thesis by (metis append_eq_conv_conj)
  qed
qed

lemma candidate_rest:
  assumes "candidate s k" and "k \<noteq> []"
  shows "drop (length k) s = [] \<or> \<not> is_word_char (hd (drop (length k) s))"
proof -
  from assms(1) consider "k = takeWhile is_word_char s" | "k = apos_at s"
    by (auto simp: candidate_def)
  then show ?thesis
  proof cases
    case 1
    then have "drop (length k) s = dropWhile is_word_char s"
      by (simp add: dropWhile_eq_drop)
    then show ?thesis using dropWhile_start [of is_word_char s] by simp
  next
    case 2
    with assms(2) obtain r where "s = k @ dropWhile is_word_char r"
      using apos_at_split [of s] by auto
    then have "drop (length k) s = dropWhile is_word_char r"
      by (metis append_eq_conv_conj)
    then show ?thesis using dropWhile_start [of is_word_char r] by simp
  qed
qed

lemma candidate_last:
  assumes "candidate s k" and "k \<noteq> []"
  shows "is_word_char (last k)"
proof -
  from assms(1) consider "k = takeWhile is_word_char s" | "k = apos_at s"
    by (auto simp: candidate_def)
  then show ?thesis
  proof cases
    case 1
    then show ?thesis using assms(2) last_takeWhile [of is_word_char s] by simp
  next
    case 2
    with assms(2) obtain r where "takeWhile is_word_char r \<noteq> []"
      "k = takeWhile is_word_char s @ CHR 0x27 # takeWhile is_word_char r"
      using apos_at_split [of s] by auto
    then show ?thesis using last_takeWhile [of is_word_char r] by simp
  qed
qed

lemma key_at_apos_key:
  assumes "apos_key k"
  shows "key_at False prev s k \<longleftrightarrow> apos_at s = k"
proof
  assume ka: "key_at False prev s k"
  obtain q b where d0: "dropWhile is_word_char k = q # b"
    using assms by (cases "dropWhile is_word_char k") (auto simp: apos_key_def)
  with assms have q0: "q = CHR 0x27" and b: "word_key b"
    and a: "takeWhile is_word_char k \<noteq> []"
    by (simp_all add: apos_key_def)
  have k: "k = takeWhile is_word_char k @ CHR 0x27 # b"
    using d0 q0 takeWhile_dropWhile_id [of is_word_char k] by simp
  let ?a = "takeWhile is_word_char k"
  from ka obtain r where s: "s = k @ r"
    and bd: "word_boundary (Some (last (take (length k) s))) (first_char (drop (length k) s))"
    using key_shape_ne [of k] assms by (auto simp: key_at_def literal_at_False key_shape_def)
  have "last k = last b" using k b by (metis last_appendR last_ConsR list.distinct(1) word_key_iff)
  then have "is_word_char (last k)" using b by (simp add: word_key_iff)
  with bd s have r: "r = [] \<or> \<not> is_word_char (hd r)"
    by (auto simp: word_boundary_def first_char_word word_opt_simps)
  have s': "s = ?a @ CHR 0x27 # b @ r" using s k by (metis append.assoc append_Cons)
  have aw: "\<forall>x\<in>set ?a. is_word_char x" by (auto dest: set_takeWhileD)
  have t: "takeWhile is_word_char s = ?a"
    by (subst s') (simp add: takeWhile_run [OF aw] apostrophe_not_word)
  have d: "dropWhile is_word_char s = CHR 0x27 # b @ r"
    by (subst s') (simp add: dropWhile_run [OF aw] apostrophe_not_word)
  have tb: "takeWhile is_word_char (b @ r) = b"
    using b r takeWhile_run [of b is_word_char r] by (simp add: word_key_iff)
  have "apos_at s = ?a @ CHR 0x27 # b"
    using b by (simp add: apos_at_def d t tb word_key_iff)
  then show "apos_at s = k" using k by simp
next
  assume e: "apos_at s = k"
  have ne: "k \<noteq> []" using assms key_shape_ne [of k] by (simp add: key_shape_def)
  have c: "candidate s k" using e by (simp add: candidate_def)
  have "s = k @ drop (length k) s"
    using candidate_take [OF c] by (metis append_take_drop_id)
  then have "literal_at False k s" by (metis literal_at_False)
  moreover have "word_boundary (Some (last (take (length k) s))) (first_char (drop (length k) s))"
    using candidate_rest [OF c ne] candidate_last [OF c ne] candidate_take [OF c]
    by (auto simp: word_boundary_def first_char_word word_opt_simps)
  ultimately show "key_at False prev s k"
    using ne by (simp add: key_at_def)
qed

lemma key_at_shape:
  assumes "key_shape k"
  shows "key_at False prev s k \<longleftrightarrow> candidate s k"
proof (cases "word_key k")
  case True
  have "k \<noteq> apos_at s"
  proof
    assume e: "k = apos_at s"
    then have "apos_at s \<noteq> []" using True by (simp add: word_key_iff)
    then have "CHR 0x27 \<in> set (apos_at s)" using apos_at_split [of s] by (metis in_set_conv_decomp)
    with e True show False by (auto simp: word_key_iff apostrophe_not_word)
  qed
  then show ?thesis
    using key_at_word_key [OF True, of prev s] by (auto simp: candidate_def)
next
  case False
  with assms have a: "apos_key k" by (simp add: key_shape_def)
  have "k \<noteq> takeWhile is_word_char s"
  proof
    assume e: "k = takeWhile is_word_char s"
    then have "\<forall>x\<in>set k. is_word_char x" by (auto dest: set_takeWhileD)
    then have "dropWhile is_word_char k = []" by simp
    with a show False by (simp add: apos_key_def)
  qed
  then show ?thesis
    using key_at_apos_key [OF a, of prev s] by (auto simp: candidate_def)
qed

lemma candidate_starts_word:
  assumes "candidate s k" and "key_shape k"
  shows "s \<noteq> [] \<and> is_word_char (hd s)"
proof -
  have h: "is_word_char (hd k)" and ne: "k \<noteq> []"
    using assms(2) key_shape_hd key_shape_ne by blast+
  have "hd (take (length k) s) = hd s" using ne by (cases s; cases k) auto
  moreover have "s \<noteq> []" using candidate_take [OF assms(1)] ne by auto
  ultimately show ?thesis using candidate_take [OF assms(1)] h by simp
qed

lemma map_option_find_id:
  "(\<And>x. P x \<Longrightarrow> f x = x) \<Longrightarrow> map_option f (find P xs) = find P xs"
  by (induction xs) auto

lemma find_none_all: "(\<And>x. x \<in> set xs \<Longrightarrow> \<not> P x) \<Longrightarrow> find P xs = None"
  by (simp add: find_None_iff)

lemma alt_match_shape:
  assumes "\<forall>k\<in>set keys. key_shape k"
  shows "alt_match False keys prev s =
           (if word_opt prev then None else find (candidate s) keys)"
proof -
  have f: "find (key_at False prev s) keys = find (candidate s) keys"
    using assms by (intro find_cong) (simp_all add: key_at_shape)
  have m: "map_option (\<lambda>k. take (length k) s) (find (candidate s) keys) = find (candidate s) keys"
    by (rule map_option_find_id) (rule candidate_take)
  show ?thesis
  proof (cases "s \<noteq> [] \<and> is_word_char (hd s)")
    case True
    then have "word_boundary prev (first_char s) \<longleftrightarrow> \<not> word_opt prev"
      by (simp add: word_boundary_def first_char_word)
    then show ?thesis by (simp add: alt_match_def f m)
  next
    case False
    then have "find (candidate s) keys = None"
      using assms candidate_starts_word [of s] by (intro find_none_all) blast
    then show ?thesis by (simp add: alt_match_def f)
  qed
qed

section \<open>The contraction table\<close>

lemma contraction_keys_shape: "\<forall>k\<in>set CONTRACTION_PATTERN. key_shape k"
proof -
  have "list_all key_shape CONTRACTION_PATTERN" by code_simp
  then show ?thesis by (simp add: list_all_iff)
qed

lemma list_all_zip_map:
  "list_all (\<lambda>(h, k). P h k) (zip (map f xs) xs) = list_all (\<lambda>k. P (f k) k) xs"
  by (induction xs) auto

lemma inert_check_value:
  assumes "inert_check CONTRACTION_PATTERN (map (takeWhile is_word_char) CONTRACTION_PATTERN)
             (v, takeWhile is_word_char v, dropWhile is_word_char v)"
  shows "inert_value v"
proof (cases "dropWhile is_word_char v")
  case Nil
  then have "\<forall>x\<in>set v. is_word_char x" by simp
  then have t: "takeWhile is_word_char v = v" by simp
  from assms Nil t have "v \<noteq> []" "v \<in> set CONTRACTION_PATTERN" "repl_contraction v = v"
    "list_all (\<lambda>k. takeWhile is_word_char k \<noteq> v \<or> k = v) CONTRACTION_PATTERN"
    by (simp_all add: inert_check_def list_all_zip_map)
  with \<open>\<forall>x\<in>set v. is_word_char x\<close> show ?thesis
    by (simp add: inert_value_def word_key_iff)
next
  case (Cons q w2)
  with assms have c: "takeWhile is_word_char v \<noteq> []" "q = CHR '' ''" "word_key w2"
    "takeWhile is_word_char v \<notin> set CONTRACTION_PATTERN"
    "w2 \<notin> takeWhile is_word_char ` set CONTRACTION_PATTERN"
    by (simp_all add: inert_check_def)
  have "word_key (takeWhile is_word_char v)"
    using c(1) by (auto simp: word_key_iff dest: set_takeWhileD)
  moreover have "list_all (\<lambda>k. takeWhile is_word_char k \<noteq> w2) CONTRACTION_PATTERN"
    using c(5) by (auto simp: list_all_iff)
  ultimately show ?thesis
    using c Cons by (simp add: inert_value_def)
qed

lemma contraction_values_inert: "\<forall>(k, v)\<in>set CONTRACTION_MAP. inert_value v"
proof -
  have "list_all (inert_check CONTRACTION_PATTERN (map (takeWhile is_word_char) CONTRACTION_PATTERN))
          (map (\<lambda>(k, v). (v, takeWhile is_word_char v, dropWhile is_word_char v)) CONTRACTION_MAP)"
    by code_simp
  then show ?thesis
    using inert_check_value by (auto simp: list_all_iff)
qed

lemma contraction_keys_values:
  "\<forall>k\<in>set CONTRACTION_PATTERN. \<forall>(k', v)\<in>set CONTRACTION_MAP.
     dropWhile is_word_char k \<noteq> CHR 0x27 # takeWhile is_word_char v"
proof -
  have "list_all (\<lambda>d. list_all (\<lambda>t. d \<noteq> CHR 0x27 # t)
                          (map (\<lambda>(k, v). takeWhile is_word_char v) CONTRACTION_MAP))
          (map (dropWhile is_word_char) CONTRACTION_PATTERN)"
    by code_simp
  then show ?thesis by (auto simp: list_all_iff)
qed

lemma dict_get_key:
  assumes "k \<in> set (dict_keys d)"
  shows "\<exists>v. dict_get d k = Some v \<and> (k, v) \<in> set d"
proof -
  have "k \<in> fst ` set (rev d)" using assms by (simp add: dict_keys_def)
  then obtain v where "map_of (rev d) k = Some v"
    by (metis map_of_eq_None_iff not_None_eq)
  moreover from this have "(k, v) \<in> set d" using map_of_SomeD by fastforce
  ultimately show ?thesis by (simp add: dict_get_def)
qed

lemma repl_contraction_inert:
  assumes "k \<in> set CONTRACTION_PATTERN"
  shows "inert_value (repl_contraction k)"
proof -
  obtain v where "dict_get CONTRACTION_MAP k = Some v" "(k, v) \<in> set CONTRACTION_MAP"
    using dict_get_key [of k CONTRACTION_MAP] assms by (auto simp: CONTRACTION_PATTERN_def)
  then show ?thesis
    using contraction_values_inert by (auto simp: repl_contraction_def)
qed

lemma contraction_match:
  "alt_match False CONTRACTION_PATTERN prev s =
     (if word_opt prev then None else find (candidate s) CONTRACTION_PATTERN)"
  by (rule alt_match_shape [OF contraction_keys_shape])

lemma find_candidate_key:
  assumes "find (candidate s) CONTRACTION_PATTERN = Some m"
  shows "m \<in> set CONTRACTION_PATTERN \<and> candidate s m \<and> m \<noteq> [] \<and> s \<noteq> [] \<and> is_word_char (hd s)"
proof -
  from assms have m: "m \<in> set CONTRACTION_PATTERN" "candidate s m"
    by (auto simp: find_Some_iff)
  then have "key_shape m" using contraction_keys_shape by blast
  then show ?thesis
    using m key_shape_ne candidate_starts_word by blast
qed

lemma find_candidate_none:
  "find (candidate s) CONTRACTION_PATTERN = None \<longleftrightarrow>
     takeWhile is_word_char s \<notin> set CONTRACTION_PATTERN \<and> apos_at s \<notin> set CONTRACTION_PATTERN"
  by (auto simp: find_None_iff candidate_def)

lemma find_candidate_nonword:
  assumes "s = [] \<or> \<not> is_word_char (hd s)"
  shows "find (candidate s) CONTRACTION_PATTERN = None"
proof (cases "find (candidate s) CONTRACTION_PATTERN")
  case None
  then show ?thesis .
next
  case (Some m)
  then show ?thesis using find_candidate_key [OF Some] assms by blast
qed

section \<open>Steps of the contraction substitution\<close>

lemma sub_in_word:
  "word_opt prev \<Longrightarrow> contraction_sub prev (c # cs) = c # contraction_sub (Some c) cs"
  by (simp add: contraction_match)

lemma sub_nonword:
  "\<not> is_word_char c \<Longrightarrow> contraction_sub prev (c # cs) = c # contraction_sub (Some c) cs"
  using find_candidate_nonword [of "c # cs"] by (simp add: contraction_match)

lemma sub_run:
  "is_word_char p \<Longrightarrow> \<forall>x\<in>set w. is_word_char x \<Longrightarrow>
   contraction_sub (Some p) (w @ t) = w @ contraction_sub (Some (last (p # w))) t"
proof (induction w arbitrary: p)
  case Nil
  then show ?case by simp
next
  case (Cons x w)
  then show ?case
    using sub_in_word [of "Some p" x "w @ t"] by (simp add: word_opt_simps)
qed

lemma sub_no_match:
  assumes "\<not> word_opt prev" and "s \<noteq> []" and "is_word_char (hd s)"
    and "find (candidate s) CONTRACTION_PATTERN = None"
  shows "contraction_sub prev s =
           takeWhile is_word_char s @
           contraction_sub (Some (last (takeWhile is_word_char s))) (dropWhile is_word_char s)"
proof -
  obtain c cs where s: "s = c # cs" using assms(2) by (cases s) auto
  with assms have c: "is_word_char c" by simp
  have "contraction_sub prev s = c # contraction_sub (Some c) cs"
    using assms(1,4) by (simp add: s contraction_match)
  also have "contraction_sub (Some c) cs =
               contraction_sub (Some c) (takeWhile is_word_char cs @ dropWhile is_word_char cs)"
    by simp
  also have "\<dots> = takeWhile is_word_char cs @
               contraction_sub (Some (last (c # takeWhile is_word_char cs))) (dropWhile is_word_char cs)"
    using c by (intro sub_run) (auto dest: set_takeWhileD)
  finally show ?thesis using c by (simp add: s)
qed

lemma sub_match:
  assumes "\<not> word_opt prev" and "find (candidate s) CONTRACTION_PATTERN = Some m"
  shows "contraction_sub prev s =
           repl_contraction m @ contraction_sub (Some (last m)) (drop (length m) s)"
proof -
  have m: "m \<noteq> []" "s \<noteq> []" using find_candidate_key [OF assms(2)] by simp_all
  then obtain c cs where s: "s = c # cs" by (cases s) auto
  have "drop (length m - 1) cs = drop (length m) s"
    using m s by (cases m) auto
  then show ?thesis
    using assms by (simp add: s contraction_match)
qed

lemma sub_starts_nonword:
  assumes "r = [] \<or> \<not> is_word_char (hd r)"
  shows "contraction_sub p r = [] \<or> \<not> is_word_char (hd (contraction_sub p r))"
proof (cases r)
  case Nil
  then show ?thesis by simp
next
  case (Cons x xs)
  with assms have "contraction_sub p r = x # contraction_sub (Some x) xs"
    using sub_nonword [of x p xs] by simp
  with Cons assms show ?thesis by simp
qed

lemma sub_prev_cong:
  "word_opt p = word_opt p' \<Longrightarrow> contraction_sub p s = contraction_sub p' s"
  by (cases s) (simp_all add: contraction_match)

section \<open>Idempotence of the contraction expansion\<close>

lemma takeWhile_append_stop:
  assumes "r = [] \<or> \<not> P (hd r)"
  shows "takeWhile P (v @ r) = takeWhile P v"
proof (cases "\<forall>x\<in>set v. P x")
  case True
  then have e: "takeWhile P v = v" by simp
  show ?thesis by (simp only: takeWhile_run [OF True assms] e)
next
  case False
  then show ?thesis by (auto simp: takeWhile_append1)
qed

lemma space_not_word: "\<not> is_word_char CHR '' ''"
  by (simp add: is_word_char_def code_def)

lemma apos_at_head:
  assumes "apos_at t \<noteq> []"
  shows "takeWhile is_word_char (apos_at t) = takeWhile is_word_char t"
proof -
  obtain r where a: "apos_at t = takeWhile is_word_char t @ CHR 0x27 # takeWhile is_word_char r"
    using apos_at_split [OF assms] by blast
  have "\<forall>x\<in>set (takeWhile is_word_char t). is_word_char x" by (auto dest: set_takeWhileD)
  then show ?thesis
    by (subst a) (simp add: takeWhile_run apostrophe_not_word)
qed

lemma no_key_with_head:
  assumes "\<forall>k\<in>set CONTRACTION_PATTERN. takeWhile is_word_char k \<noteq> takeWhile is_word_char t"
  shows "find (candidate t) CONTRACTION_PATTERN = None"
proof -
  have "takeWhile is_word_char t \<notin> set CONTRACTION_PATTERN"
  proof
    assume k: "takeWhile is_word_char t \<in> set CONTRACTION_PATTERN"
    have "takeWhile is_word_char (takeWhile is_word_char t) = takeWhile is_word_char t"
      by (simp add: takeWhile_idem)
    with assms k show False by blast
  qed
  moreover have "apos_at t \<notin> set CONTRACTION_PATTERN"
  proof
    assume k: "apos_at t \<in> set CONTRACTION_PATTERN"
    then have "apos_at t \<noteq> []" using contraction_keys_shape key_shape_ne by blast
    then have "takeWhile is_word_char (apos_at t) = takeWhile is_word_char t"
      by (rule apos_at_head)
    with assms k show False by blast
  qed
  ultimately show ?thesis by (simp add: find_candidate_none)
qed

lemma inert_step:
  assumes v: "inert_value v" and p: "\<not> word_opt p" and r: "r = [] \<or> \<not> is_word_char (hd r)"
  shows "contraction_sub p (v @ r) = v @ contraction_sub (Some (last v)) r \<and>
         is_word_char (last v) \<and> v \<noteq> []"
proof -
  from v consider
    (key) "word_key v" "v \<in> set CONTRACTION_PATTERN" "repl_contraction v = v"
      "\<forall>k\<in>set CONTRACTION_PATTERN. takeWhile is_word_char k \<noteq> v \<or> k = v"
  | (two) w2 where "word_key (takeWhile is_word_char v)"
      "takeWhile is_word_char v \<notin> set CONTRACTION_PATTERN"
      "dropWhile is_word_char v = CHR '' '' # w2" "word_key w2"
      "\<forall>k\<in>set CONTRACTION_PATTERN. takeWhile is_word_char k \<noteq> w2"
    by (cases "dropWhile is_word_char v") (auto simp: inert_value_def list_all_iff)
  then show ?thesis
  proof cases
    case key
    let ?t = "v @ r"
    have vw: "\<forall>x\<in>set v. is_word_char x" and vn: "v \<noteq> []"
      using key(1) by (simp_all add: word_key_iff)
    have tw: "takeWhile is_word_char ?t = v" by (rule takeWhile_run [OF vw r])
    obtain m where f: "find (candidate ?t) CONTRACTION_PATTERN = Some m"
      using key(2) tw find_candidate_none [of ?t]
      by (cases "find (candidate ?t) CONTRACTION_PATTERN") auto
    then have m: "m \<in> set CONTRACTION_PATTERN" "candidate ?t m" "m \<noteq> []"
      using find_candidate_key by blast+
    have "takeWhile is_word_char m = v"
    proof (cases "m = takeWhile is_word_char ?t")
      case True
      then show ?thesis using tw vw by simp
    next
      case False
      with m(2) have "m = apos_at ?t" by (simp add: candidate_def)
      then show ?thesis using apos_at_head [of ?t] m(3) tw by simp
    qed
    with key(4) m(1) have "m = v" by blast
    then have "contraction_sub p ?t = v @ contraction_sub (Some (last v)) r"
      using sub_match [OF p f] key(3) by simp
    then show ?thesis using vw vn by simp
  next
    case (two w2)
    let ?w1 = "takeWhile is_word_char v"
    have v': "v = ?w1 @ CHR '' '' # w2"
      using two(3) takeWhile_dropWhile_id [of is_word_char v] by simp
    have w1: "\<forall>x\<in>set ?w1. is_word_char x" "?w1 \<noteq> []"
      using two(1) by (simp_all add: word_key_iff)
    have w2: "\<forall>x\<in>set w2. is_word_char x" "w2 \<noteq> []"
      using two(4) by (simp_all add: word_key_iff)
    let ?t = "v @ r"
    have t: "?t = ?w1 @ CHR '' '' # w2 @ r" by (subst v') simp
    have tw: "takeWhile is_word_char ?t = ?w1"
      by (subst t) (simp add: takeWhile_run [OF w1(1)] space_not_word)
    have dw: "dropWhile is_word_char ?t = CHR '' '' # w2 @ r"
      by (subst t) (simp add: dropWhile_run [OF w1(1)] space_not_word)
    have "apos_at ?t = []" by (simp add: apos_at_def dw)
    moreover have "[] \<notin> set CONTRACTION_PATTERN"
      using contraction_keys_shape key_shape_ne by blast
    ultimately have n1: "find (candidate ?t) CONTRACTION_PATTERN = None"
      using two(2) tw by (simp add: find_candidate_none)
    have h: "?t \<noteq> []" "is_word_char (hd ?t)"
      using w1 by (cases ?w1; simp add: t)+
    have s1: "contraction_sub p ?t =
                ?w1 @ contraction_sub (Some (last ?w1)) (CHR '' '' # w2 @ r)"
      using sub_no_match [OF p h n1] by (simp only: tw dw)
    have s2: "contraction_sub (Some (last ?w1)) (CHR '' '' # w2 @ r) =
                CHR '' '' # contraction_sub (Some CHR '' '') (w2 @ r)"
      by (rule sub_nonword [OF space_not_word])
    let ?t2 = "w2 @ r"
    have tw2: "takeWhile is_word_char ?t2 = w2" by (rule takeWhile_run [OF w2(1) r])
    have dw2: "dropWhile is_word_char ?t2 = r" by (rule dropWhile_run [OF w2(1) r])
    have n2: "find (candidate ?t2) CONTRACTION_PATTERN = None"
      using two(5) by (intro no_key_with_head) (simp only: tw2)
    have h2: "?t2 \<noteq> []" "is_word_char (hd ?t2)"
      using w2 by (cases w2; simp)+
    have p2: "\<not> word_opt (Some CHR '' '')" by (simp add: word_opt_simps space_not_word)
    have s3: "contraction_sub (Some CHR '' '') ?t2 = w2 @ contraction_sub (Some (last w2)) r"
      using sub_no_match [OF p2 h2 n2] by (simp only: tw2 dw2)
    have "contraction_sub p ?t = (?w1 @ CHR '' '' # w2) @ contraction_sub (Some (last w2)) r"
      by (simp only: s1 s2 s3) simp
    moreover have "last v = last w2" using w2(2) by (subst v') simp
    moreover have "is_word_char (last w2)" using w2 by simp
    ultimately show ?thesis using v' w1(2) by (metis append_is_Nil_conv)
  qed
qed

lemma sub_after_run:
  assumes p: "\<not> word_opt p" and s: "s \<noteq> []" "is_word_char (hd s)"
    and n: "find (candidate s) CONTRACTION_PATTERN = None"
  shows "find (candidate (contraction_sub p s)) CONTRACTION_PATTERN = None"
proof -
  let ?run = "takeWhile is_word_char s"
  let ?rest = "dropWhile is_word_char s"
  let ?r2 = "contraction_sub (Some (last ?run)) ?rest"
  have e: "contraction_sub p s = ?run @ ?r2" by (rule sub_no_match [OF p s n])
  have rw: "\<forall>x\<in>set ?run. is_word_char x" by (auto dest: set_takeWhileD)
  have rest: "?rest = [] \<or> \<not> is_word_char (hd ?rest)" by (rule dropWhile_start)
  have r2: "?r2 = [] \<or> \<not> is_word_char (hd ?r2)" by (rule sub_starts_nonword [OF rest])
  have tw: "takeWhile is_word_char (?run @ ?r2) = ?run" by (rule takeWhile_run [OF rw r2])
  have dw: "dropWhile is_word_char (?run @ ?r2) = ?r2" by (rule dropWhile_run [OF rw r2])
  from n have k1: "?run \<notin> set CONTRACTION_PATTERN" and k2: "apos_at s \<notin> set CONTRACTION_PATTERN"
    by (simp_all add: find_candidate_none)
  have "apos_at (?run @ ?r2) \<notin> set CONTRACTION_PATTERN"
  proof
    assume k: "apos_at (?run @ ?r2) \<in> set CONTRACTION_PATTERN"
    then have ne: "apos_at (?run @ ?r2) \<noteq> []"
      using contraction_keys_shape key_shape_ne by blast
    then obtain r3 where r3: "?r2 = CHR 0x27 # r3" "takeWhile is_word_char r3 \<noteq> []"
      and a: "apos_at (?run @ ?r2) = ?run @ CHR 0x27 # takeWhile is_word_char r3"
      using apos_at_split [OF ne] by (auto simp: tw dw)
    from r3(1) obtain x xs where x: "?rest = x # xs"
      by (cases ?rest) auto
    with rest have xn: "\<not> is_word_char x" by simp
    have r2x: "?r2 = x # contraction_sub (Some x) xs"
      using sub_nonword [OF xn, of "Some (last ?run)" xs] by (simp only: x)
    have "CHR 0x27 # r3 = x # contraction_sub (Some x) xs"
      by (rule trans [OF r3(1) [symmetric] r2x])
    then have xq: "x = CHR 0x27" and r3e: "r3 = contraction_sub (Some x) xs" by blast+
    have nx: "\<not> word_opt (Some x)" using xn by (simp add: word_opt_simps)
    have xs: "xs \<noteq> []" using r3(2) r3e by auto
    have xsw: "is_word_char (hd xs)"
    proof (rule ccontr)
      assume "\<not> is_word_char (hd xs)"
      then have "r3 = [] \<or> \<not> is_word_char (hd r3)"
        unfolding r3e by (intro sub_starts_nonword) simp
      with r3(2) show False by (cases r3) auto
    qed
    show False
    proof (cases "find (candidate xs) CONTRACTION_PATTERN")
      case None
      have "r3 = takeWhile is_word_char xs @
                 contraction_sub (Some (last (takeWhile is_word_char xs))) (dropWhile is_word_char xs)"
        unfolding r3e by (rule sub_no_match [OF nx xs xsw None])
      moreover have "contraction_sub (Some (last (takeWhile is_word_char xs))) (dropWhile is_word_char xs) = [] \<or>
          \<not> is_word_char (hd (contraction_sub (Some (last (takeWhile is_word_char xs))) (dropWhile is_word_char xs)))"
        by (intro sub_starts_nonword dropWhile_start)
      ultimately have t3: "takeWhile is_word_char r3 = takeWhile is_word_char xs"
        using takeWhile_append_stop [of _ is_word_char "takeWhile is_word_char xs"]
        by (simp add: takeWhile_idem)
      have "apos_at s = ?run @ CHR 0x27 # takeWhile is_word_char xs"
        using r3(2) t3 by (simp add: apos_at_def x xq)
      with a t3 k k2 show False by simp
    next
      case (Some m2)
      then have m2: "m2 \<in> set CONTRACTION_PATTERN" "candidate xs m2" "m2 \<noteq> []"
        using find_candidate_key by blast+
      let ?r4 = "contraction_sub (Some (last m2)) (drop (length m2) xs)"
      have r3': "r3 = repl_contraction m2 @ ?r4"
        unfolding r3e by (rule sub_match [OF nx Some])
      have "?r4 = [] \<or> \<not> is_word_char (hd ?r4)"
        by (intro sub_starts_nonword candidate_rest [OF m2(2,3)])
      then have t3: "takeWhile is_word_char r3 = takeWhile is_word_char (repl_contraction m2)"
        unfolding r3' by (rule takeWhile_append_stop)
      obtain v where v: "dict_get CONTRACTION_MAP m2 = Some v" "(m2, v) \<in> set CONTRACTION_MAP"
        using dict_get_key [of m2 CONTRACTION_MAP] m2(1) by (auto simp: CONTRACTION_PATTERN_def)
      then have rv: "repl_contraction m2 = v" by (simp add: repl_contraction_def)
      have "dropWhile is_word_char (apos_at (?run @ ?r2)) = CHR 0x27 # takeWhile is_word_char v"
        by (subst a) (simp add: dropWhile_run [OF rw] apostrophe_not_word t3 rv)
      with contraction_keys_values k v(2) show False by blast
    qed
  qed
  then show ?thesis
    using k1 by (simp add: e find_candidate_none tw)
qed

lemma sub_idem:
  "word_opt p = word_opt p' \<Longrightarrow>
   contraction_sub p' (contraction_sub p s) = contraction_sub p s"
proof (induction "length s" arbitrary: s p p' rule: less_induct)
  case less
  show ?case
  proof (cases s)
    case Nil
    then show ?thesis by simp
  next
    case (Cons c cs)
    have ih: "contraction_sub q' (contraction_sub q t) = contraction_sub q t"
      if "length t < length s" "word_opt q = word_opt q'" for q q' t
      using less.hyps [OF that] .
    have step: ?thesis
      if e: "contraction_sub p s = c # contraction_sub (Some c) cs"
        and e': "contraction_sub p' (c # contraction_sub (Some c) cs) =
                 c # contraction_sub (Some c) (contraction_sub (Some c) cs)"
    proof -
      have "contraction_sub (Some c) (contraction_sub (Some c) cs) = contraction_sub (Some c) cs"
        using ih [of cs "Some c" "Some c"] Cons by simp
      with e e' show ?thesis by simp
    qed
    show ?thesis
    proof (cases "word_opt p")
      case True
      then have "word_opt p'" using less.prems by simp
      then show ?thesis
        using True sub_in_word by (intro step) (simp_all only: Cons)
    next
      case False
      then have p': "\<not> word_opt p'" using less.prems by simp
      show ?thesis
      proof (cases "is_word_char c")
        case nw: False
        then show ?thesis
          using sub_nonword by (intro step) (simp_all only: Cons)
      next
        case w: True
        then have s: "s \<noteq> []" "is_word_char (hd s)" using Cons by simp_all
        show ?thesis
        proof (cases "find (candidate s) CONTRACTION_PATTERN")
          case None
          let ?run = "takeWhile is_word_char s"
          let ?rest = "dropWhile is_word_char s"
          let ?r2 = "contraction_sub (Some (last ?run)) ?rest"
          have e: "contraction_sub p s = ?run @ ?r2" by (rule sub_no_match [OF False s None])
          have rw: "\<forall>x\<in>set ?run. is_word_char x" by (auto dest: set_takeWhileD)
          have rn: "?run \<noteq> []" using s by (cases s) auto
          have r2: "?r2 = [] \<or> \<not> is_word_char (hd ?r2)"
            by (intro sub_starts_nonword dropWhile_start)
          have n': "find (candidate (?run @ ?r2)) CONTRACTION_PATTERN = None"
            using sub_after_run [OF False s None] by (simp only: e)
          have h: "?run @ ?r2 \<noteq> []" "is_word_char (hd (?run @ ?r2))"
            using rn rw by (cases ?run; simp)+
          have "contraction_sub p' (?run @ ?r2) = ?run @ contraction_sub (Some (last ?run)) ?r2"
            using sub_no_match [OF p' h n']
            by (simp only: takeWhile_run [OF rw r2] dropWhile_run [OF rw r2])
          moreover have "length ?rest < length s"
            using rn length_append [of ?run ?rest] by simp
          then have "contraction_sub (Some (last ?run)) ?r2 = ?r2"
            by (intro ih) simp_all
          ultimately show ?thesis by (simp only: e)
        next
          case (Some m)
          then have m: "m \<in> set CONTRACTION_PATTERN" "candidate s m" "m \<noteq> []"
            using find_candidate_key by blast+
          let ?r = "drop (length m) s"
          let ?R = "contraction_sub (Some (last m)) ?r"
          have e: "contraction_sub p s = repl_contraction m @ ?R"
            by (rule sub_match [OF False Some])
          have R: "?R = [] \<or> \<not> is_word_char (hd ?R)"
            by (intro sub_starts_nonword candidate_rest [OF m(2,3)])
          have i: "contraction_sub p' (repl_contraction m @ ?R) =
                     repl_contraction m @ contraction_sub (Some (last (repl_contraction m))) ?R"
            and lw: "is_word_char (last (repl_contraction m))"
            using inert_step [OF repl_contraction_inert [OF m(1)] p' R] by simp_all
          have "length ?r < length s" using m(3) s(1) by simp
          moreover have "word_opt (Some (last m)) = word_opt (Some (last (repl_contraction m)))"
            using lw candidate_last [OF m(2,3)] by (simp add: word_opt_simps)
          ultimately have "contraction_sub (Some (last (repl_contraction m))) ?R = ?R"
            by (intro ih)
          with i show ?thesis by (simp only: e)
        qed
      qed
    qed
  qed
qed

text \<open>
  Claim C7. The contraction step of the rewriter is idempotent: a second pass over an
  expanded text changes nothing. The reason is not that no key is left: the table maps
  \<open>can't\<close> and \<open>cannot\<close> to \<open>cannot\<close>, itself a key, which the second pass matches
  and replaces by itself. It is the only key matched in any expansion of the table.
\<close>

theorem contraction_expansion_idempotent:
  "expand_contractions (expand_contractions text) = expand_contractions text \<and>
   list_all (\<lambda>m. m = ''cannot'' \<and> repl_contraction m = m)
     (concat (map (\<lambda>(k, v). contraction_finditer v) CONTRACTION_MAP))"
proof -
  have "contraction_sub None (contraction_sub None text) = contraction_sub None text"
    by (rule sub_idem) simp
  then have a: "expand_contractions (expand_contractions text) = expand_contractions text"
    by (simp only: expand_contractions_def)
  have b: "list_all (\<lambda>m. m = ''cannot'' \<and> repl_contraction m = m)
     (concat (map (\<lambda>(k, v). contraction_finditer v) CONTRACTION_MAP))"
    by code_simp
  show ?thesis by (rule conjI [OF a b])
qed

text \<open>The expansion of \<open>can't\<close> holds a key of the table as a whole word, and a
  contraction of the table is still matched after a first expansion.\<close>

theorem expansion_contains_key:
  "repl_contraction ''can't'' = ''cannot'' \<and>
   contraction_finditer (repl_contraction ''can't'') = [''cannot''] \<and>
   expand_contractions ''I can't go'' = ''I cannot go'' \<and>
   contraction_finditer (expand_contractions ''I can't go'') = [''cannot'']"
  by code_simp

end
